theory Spec2Isabelle
  imports Complex_Main "HOL-Library.Word"
begin

section \<open>esp32Blink: the firmware of src/main.cpp as state-passing functions\<close>

text \<open>
  The program is a sequence of calls into three external collaborators: the serial port,
  the LittleFS driver and the GPIO / NeoPixel library. Each collaborator is modelled by
  what the program can observe of it:
  \<^item> the serial port by the bytes written to it so far;
  \<^item> the file-system driver by a record of the answers it gives (\<open>littlefs\<close>), a
    directory handle by the sequence of answers of its successive \<open>openNextFile\<close> calls;
  \<^item> the LED pin by its level, the pixel by its colour buffer and the colour latched
    by \<open>show\<close>;
  \<^item> \<open>delay\<close> by a clock of the milliseconds slept.
  The two \<open>static\<close> variables (\<open>isOn\<close>, \<open>count\<close>) are fields of the state.
\<close>

subsection \<open>Text written to the serial port\<close>

definition LF :: string where
  "LF = [CHR 0x0A]"

definition CRLF :: string where
  "CRLF = [CHR 0x0D, CHR 0x0A]"

definition TAB :: string where
  "TAB = [CHR 0x09]"

definition digit :: "nat \<Rightarrow> char" where
  "digit n = ''0123456789'' ! (n mod 10)"

text \<open>\<open>%u\<close>: an unsigned value in decimal, no padding.\<close>

fun show_nat :: "nat \<Rightarrow> string" where
  "show_nat n = (if n < 10 then [digit n] else show_nat (n div 10) @ [digit (n mod 10)])"

declare show_nat.simps [simp del]

text \<open>\<open>%d\<close>: a signed value in decimal.\<close>

definition show_int :: "int \<Rightarrow> string" where
  "show_int i = (if i < 0 then ''-'' @ show_nat (nat (- i)) else show_nat (nat i))"

text \<open>
  How often a text occurs in another (at every position, overlaps counted); used to state
  that a message is written once, or not at all.
\<close>

fun occurrences :: "string \<Rightarrow> string \<Rightarrow> nat" where
  "occurrences pat [] = (if pat = [] then 1 else 0)"
| "occurrences pat (c # cs) = (if take (length pat) (c # cs) = pat then 1 else 0) + occurrences pat cs"

subsection \<open>Single-precision arithmetic\<close>

text \<open>
  \<open>float\<close> is IEEE 754 binary32 with round-to-nearest, ties-to-even. A finite float is
  modelled by the rational it denotes. \<open>float_exp n x\<close> searches the exponent of \<open>x\<close>
  downwards from \<open>n - 126\<close>; with \<open>n = 253\<close> it ranges over the exponents \<open>127 \<dots> -126\<close>
  of binary32 (\<open>-126\<close> also for the subnormal range). \<open>float_round\<close> rounds to 24
  significant bits at that exponent. Overflow to infinity is not modelled: every value
  that \<open>usedPercent\<close> computes is below \<open>2 ^ 39\<close> (lemma \<open>usedPercent_no_overflow\<close>).
\<close>

definition round_even :: "rat \<Rightarrow> int" where
  "round_even y =
     (let f = \<lfloor>y\<rfloor>; r = y - of_int f
      in if r < 1 / 2 then f else if 1 / 2 < r then f + 1 else if even f then f else f + 1)"

fun float_exp :: "nat \<Rightarrow> rat \<Rightarrow> int" where
  "float_exp n x =
     (if n = 0 then - 126
      else if 2 powi (int n - 126) \<le> x then int n - 126
      else float_exp (n - 1) x)"

declare float_exp.simps [simp del]

definition float_round :: "rat \<Rightarrow> rat" where
  "float_round x =
     (let ulp = 2 powi (float_exp 253 \<bar>x\<bar> - 23)
      in of_int (round_even (x / ulp)) * ulp)"

text \<open>\<open>(float)w\<close> for a \<open>size_t\<close> (32 bits on the ESP32), and the two operations used.\<close>

definition to_float :: "32 word \<Rightarrow> rat" where
  "to_float w = float_round (of_nat (unat w))"

definition fmul :: "rat \<Rightarrow> rat \<Rightarrow> rat" where
  "fmul a b = float_round (a * b)"

definition fdiv :: "rat \<Rightarrow> rat \<Rightarrow> rat" where
  "fdiv a b = float_round (a / b)"

text \<open>
  \<open>%.2f\<close>: the value (promoted to \<open>double\<close> without change) rounded to two decimals,
  ties to even on the exact value.
\<close>

definition show_f2 :: "rat \<Rightarrow> string" where
  "show_f2 x =
     (let n = nat (round_even (\<bar>x\<bar> * 100))
      in (if x < 0 then ''-'' else '''') @ show_nat (n div 100) @ ''.'' @
         [digit (n div 10), digit n])"

subsection \<open>Build configuration, driver answers, program state\<close>

text \<open>
  The build flags and pin macros come from the build configuration, which selects the
  LED and the NeoPixel blocks independently (\<open>#ifdef\<close>).
\<close>

record config =
  USE_LED :: bool
  USE_NEOPIXEL :: bool
  LED_PIN :: int
  NEOPIXEL_PIN :: int
  NEOPIXEL_COUNT :: nat

text \<open>
  A \<open>File\<close> object that tests true: what \<open>isDirectory()\<close>, \<open>name()\<close> and \<open>size()\<close> return,
  and, call by call, what \<open>openNextFile()\<close> returns on it (\<open>None\<close> is the empty \<open>File\<close>,
  which tests false). The sequence may go on for ever.
\<close>

datatype fs_file =
  File (isDirectory: bool) (name: string) (size_f: "32 word") (entries: "nat \<Rightarrow> fs_file option")

text \<open>The answers of the LittleFS object during one call of \<open>initLittleFs\<close>.\<close>

record littlefs =
  begin_ok :: bool
  totalBytes :: "32 word"
  usedBytes :: "32 word"
  open_fs :: "string \<Rightarrow> fs_file option"

text \<open>
  \<open>begins\<close>, \<open>reads\<close> and \<open>toggles\<close> count the calls of \<open>LittleFS.begin\<close>, of
  \<open>openNextFile\<close> (on any handle) and of \<open>toggleOutput\<close>; no branch of the program reads
  them.
\<close>

record state =
  serial :: string
  clock :: nat
  pin :: bool
  np_brightness :: nat
  np_buffer :: "32 word"
  np_shown :: "32 word"
  isOn :: bool
  count :: int
  begins :: nat
  reads :: nat
  toggles :: nat

definition print :: "string \<Rightarrow> state \<Rightarrow> state" where
  "print txt s = s\<lparr>serial := serial s @ txt\<rparr>"

definition println :: "string \<Rightarrow> state \<Rightarrow> state" where
  "println txt s = print (txt @ CRLF) s"

definition delay :: "nat \<Rightarrow> state \<Rightarrow> state" where
  "delay ms s = s\<lparr>clock := clock s + ms\<rparr>"

text \<open>The state when \<open>setup\<close> is entered; the level of the LED pin at reset is \<open>p\<close>.\<close>

definition boot :: "bool \<Rightarrow> state" where
  "boot p = \<lparr>serial = [], clock = 0, pin = p, np_brightness = 0, np_buffer = 0, np_shown = 0,
              isOn = False, count = 5, begins = 0, reads = 0, toggles = 0\<rparr>"

subsection \<open>listFiles\<close>

definition openNextFile :: "fs_file \<Rightarrow> nat \<Rightarrow> state \<Rightarrow> fs_file option \<times> nat \<times> state" where
  "openNextFile dir pos s = (entries dir pos, Suc pos, s\<lparr>reads := Suc (reads s)\<rparr>)"

text \<open>The two \<open>printf\<close> calls and the \<open>println\<close> of the loop body, for one entry.\<close>

definition entryLine :: "fs_file \<Rightarrow> string" where
  "entryLine e =
     (if isDirectory e then ''DIR : '' else ''FILE: '') @ name e @
     (if \<not> isDirectory e then TAB @ ''SIZE: '' @ show_nat (unat (size_f e)) @ LF else CRLF)"

text \<open>The \<open>while (currentEntry)\<close> loop: it may not return.\<close>

partial_function (option) listLoop :: "fs_file \<Rightarrow> nat \<Rightarrow> fs_file option \<Rightarrow> state \<Rightarrow> state option" where
  "listLoop rootDirectory pos currentEntry s =
     (case currentEntry of
        None \<Rightarrow> Some s
      | Some e \<Rightarrow>
          (case openNextFile rootDirectory pos (print (entryLine e) s) of
             (next_entry, pos', s') \<Rightarrow> listLoop rootDirectory pos' next_entry s'))"

definition listFiles :: "littlefs \<Rightarrow> string \<Rightarrow> state \<Rightarrow> state option" where
  "listFiles fileSystem directoryPath s =
     (let s1 = println [] s;
          rootDirectory = open_fs fileSystem directoryPath
      in if rootDirectory = None \<or> \<not> isDirectory (the rootDirectory)
         then Some (println ''Error: Could not open root directory.'' s1)
         else
           (case openNextFile (the rootDirectory) 0 s1 of
              (currentEntry, pos, s2) \<Rightarrow>
                listLoop (the rootDirectory) pos currentEntry
                  (if currentEntry = None then println ''Info: No files found.'' s2 else s2)))"

subsection \<open>printLittleFsUsage\<close>

definition usedPercent :: "littlefs \<Rightarrow> rat" where
  "usedPercent fs =
     (if 0 < totalBytes fs
      then fdiv (fmul (to_float (usedBytes fs)) 100) (to_float (totalBytes fs))
      else 0)"

definition printLittleFsUsage :: "littlefs \<Rightarrow> state \<Rightarrow> state" where
  "printLittleFsUsage fs s =
     (let s1 = println [] s;
          s2 = print (''LittleFS total bytes: '' @ show_nat (unat (totalBytes fs)) @ LF) s1;
          s3 = print (''LittleFS used bytes : '' @ show_nat (unat (usedBytes fs)) @ LF) s2
      in print (''LittleFS usage      : '' @ show_f2 (usedPercent fs) @ ''%'' @ LF) s3)"

subsection \<open>initOutput and toggleOutput\<close>

text \<open>
  \<open>digitalRead\<close> of the LED pin returns the level last written. \<open>np_buffer\<close> is the colour
  requested for pixel 0 (\<open>Color(0, 0, 255) = 0x0000FF\<close>); \<open>setPixelColor(0, c)\<close> is ignored
  by the library when the strip has no pixel 0; \<open>show\<close> latches the buffer.
\<close>

definition initOutput :: "config \<Rightarrow> state \<Rightarrow> state" where
  "initOutput cfg s =
     (let s1 = (if USE_LED cfg
                then print (''Using LED on pin '' @ show_int (LED_PIN cfg) @ LF) (s\<lparr>pin := False\<rparr>)
                else s)
      in if USE_NEOPIXEL cfg
         then print (''Using NeoPixel on pin '' @ show_int (NEOPIXEL_PIN cfg) @ LF)
                (s1\<lparr>np_brightness := 20, np_buffer := 0, np_shown := 0\<rparr>)
         else s1)"

definition toggleOutput :: "config \<Rightarrow> state \<Rightarrow> state" where
  "toggleOutput cfg s =
     (let s0 = s\<lparr>toggles := Suc (toggles s)\<rparr>;
          s1 = (if USE_LED cfg
                then (let s' = s0\<lparr>pin := \<not> pin s0\<rparr>
                      in print (''LED is '' @ (if pin s' then ''ON'' else ''OFF'') @ LF) s')
                else s0)
      in if USE_NEOPIXEL cfg
         then (let s2 = (if isOn s1
                         then println ''NeoPixel is OFF'' (s1\<lparr>np_buffer := 0\<rparr>)
                         else println ''NeoPixel is ON''
                                (if 0 < NEOPIXEL_COUNT cfg then s1\<lparr>np_buffer := 0x0000FF\<rparr> else s1));
                   s3 = s2\<lparr>np_shown := np_buffer s2\<rparr>
               in s3\<lparr>isOn := \<not> isOn s3\<rparr>)
         else s1)"

subsection \<open>initLittleFs, setup and loop\<close>

definition initLittleFs :: "littlefs \<Rightarrow> state \<Rightarrow> state option" where
  "initLittleFs fs s =
     (let s1 = println (LF @ LF @ ''Initializing LittleFS...'') s;
          s2 = s1\<lparr>begins := Suc (begins s1)\<rparr>
      in if \<not> begin_ok fs
         then Some (println ''Error: LittleFS initialization failed.'' s2)
         else
           (case listFiles fs ''/'' (printLittleFsUsage fs (println ''Info: LittleFS initialization OK.'' s2)) of
              None \<Rightarrow> None
            | Some s3 \<Rightarrow> Some (println LF s3)))"

definition progVersion :: string where
  "progVersion = ''1.1.0''"

text \<open>\<open>setup()\<close>, named \<open>setup_f\<close> here.\<close>

definition setup_f :: "config \<Rightarrow> littlefs \<Rightarrow> state \<Rightarrow> state option" where
  "setup_f cfg fs s =
     initLittleFs fs
       (initOutput cfg (print (''Program version: '' @ progVersion @ LF) (delay 200 s)))"

text \<open>
  \<open>count\<close> is a C \<open>int\<close>: \<open>count++\<close> is written with the 32-bit two's complement
  wrap-around.
\<close>

definition loop :: "config \<Rightarrow> littlefs \<Rightarrow> state \<Rightarrow> state option" where
  "loop cfg fs s =
     (let s1 = delay 2500 (toggleOutput cfg s)
      in if count s1 > 10
         then (case initLittleFs fs s1 of
                 None \<Rightarrow> None
               | Some s2 \<Rightarrow> Some (delay 2000 (s2\<lparr>count := 0\<rparr>)))
         else Some (s1\<lparr>count := signed_take_bit 31 (count s1 + 1)\<rparr>))"

text \<open>
  \<open>n\<close> calls of \<open>loop\<close>, the \<open>i\<close>-th (from 0) with the driver answering as \<open>env i\<close>;
  \<open>None\<close> when one of them does not return.
\<close>

fun run :: "config \<Rightarrow> (nat \<Rightarrow> littlefs) \<Rightarrow> nat \<Rightarrow> state \<Rightarrow> state option" where
  "run cfg env 0 s = Some s"
| "run cfg env (Suc n) s =
     (case run cfg env n s of None \<Rightarrow> None | Some s' \<Rightarrow> loop cfg (env n) s')"

subsection \<open>Frame of the file-system calls\<close>

text \<open>
  \<open>only_io s s'\<close>: from \<open>s\<close> to \<open>s'\<close> text was appended to the serial output and
  \<open>openNextFile\<close> may have been called; nothing else changed.
\<close>

definition only_io :: "state \<Rightarrow> state \<Rightarrow> bool" where
  "only_io s s' \<longleftrightarrow>
     s' = s\<lparr>serial := serial s', reads := reads s'\<rparr> \<and>
     take (length (serial s)) (serial s') = serial s"

subsection \<open>Text written between two states\<close>

definition emitted :: "state \<Rightarrow> state \<Rightarrow> string" where
  "emitted s s' = drop (length (serial s)) (serial s')"

subsection \<open>Reachable states of the main loop\<close>

text \<open>
  The states the program is in between two calls of \<open>loop\<close>: \<open>count\<close> is 5 when the
  first call is made, and each call that returns leads to the next state, whatever the
  driver answers.
\<close>

inductive reachable :: "config \<Rightarrow> state \<Rightarrow> bool" for cfg :: config where
  start: "count s = 5 \<Longrightarrow> reachable cfg s"
| step: "reachable cfg s \<Longrightarrow> loop cfg fs s = Some s' \<Longrightarrow> reachable cfg s'"

subsection \<open>Example inputs\<close>

text \<open>
  Two build configurations; a root directory holding the file \<open>data.bin\<close> (42 bytes) and
  the directory \<open>logs\<close>, which has an entry of its own; an empty root directory; a root
  path that opens as a plain file; a driver whose mount fails; a full partition; a driver
  that answers the same way at every call of \<open>loop\<close>.
\<close>

definition cfg_led :: config where
  "cfg_led = \<lparr>USE_LED = True, USE_NEOPIXEL = False, LED_PIN = 2, NEOPIXEL_PIN = 0, NEOPIXEL_COUNT = 0\<rparr>"

definition cfg_pixel :: config where
  "cfg_pixel = \<lparr>USE_LED = False, USE_NEOPIXEL = True, LED_PIN = 0, NEOPIXEL_PIN = 48, NEOPIXEL_COUNT = 1\<rparr>"

definition no_entries :: "nat \<Rightarrow> fs_file option" where
  "no_entries i = None"

definition data_bin :: fs_file where
  "data_bin = File False ''data.bin'' 42 no_entries"

definition logs :: fs_file where
  "logs = File True ''logs'' 0 (\<lambda>i. if i = 0 then Some (File False ''old.log'' 7 no_entries) else None)"

definition demo_root :: fs_file where
  "demo_root = File True ''/'' 0 (\<lambda>i. if i = 0 then Some data_bin else if i = 1 then Some logs else None)"

definition fs_demo :: littlefs where
  "fs_demo = \<lparr>begin_ok = True, totalBytes = 1000000, usedBytes = 250000,
               open_fs = (\<lambda>p. if p = ''/'' then Some demo_root else None)\<rparr>"

definition fs_empty :: littlefs where
  "fs_empty = \<lparr>begin_ok = True, totalBytes = 1000000, usedBytes = 8192,
               open_fs = (\<lambda>p. if p = ''/'' then Some (File True ''/'' 0 no_entries) else None)\<rparr>"

definition fs_plain :: littlefs where
  "fs_plain = \<lparr>begin_ok = True, totalBytes = 1000000, usedBytes = 8192,
               open_fs = (\<lambda>p. if p = ''/'' then Some data_bin else None)\<rparr>"

definition fs_fail :: littlefs where
  "fs_fail = \<lparr>begin_ok = False, totalBytes = 0, usedBytes = 0, open_fs = (\<lambda>p. None)\<rparr>"

definition env_fail :: "nat \<Rightarrow> littlefs" where
  "env_fail i = fs_fail"

definition env_demo :: "nat \<Rightarrow> littlefs" where
  "env_demo i = fs_demo"

definition fs_full :: littlefs where
  "fs_full = \<lparr>begin_ok = True, totalBytes = 671091, usedBytes = 671091, open_fs = (\<lambda>p. None)\<rparr>"

subsection \<open>Accumulated rounding error\<close>

text \<open>
  \<open>approx k a b\<close>: \<open>a\<close> is \<open>b\<close> up to \<open>k\<close> roundings, each with a relative error of at most
  \<open>2\<^sup>-\<^sup>2\<^sup>4\<close>.
\<close>

definition approx :: "nat \<Rightarrow> rat \<Rightarrow> rat \<Rightarrow> bool" where
  "approx k a b \<longleftrightarrow> b * (1 - 1 / 2 ^ 24) ^ k \<le> a \<and> a \<le> b * (1 + 1 / 2 ^ 24) ^ k"

section \<open>Properties\<close>

subsection \<open>What the listing and the mount change in the state\<close>

lemma print_simps [simp]:
  "serial (print t s) = serial s @ t" "clock (print t s) = clock s" "pin (print t s) = pin s"
  "isOn (print t s) = isOn s" "count (print t s) = count s" "begins (print t s) = begins s"
  "reads (print t s) = reads s" "toggles (print t s) = toggles s"
  "np_buffer (print t s) = np_buffer s" "np_shown (print t s) = np_shown s"
  "np_brightness (print t s) = np_brightness s"
  by (simp_all add: print_def)

lemma listLoop_None [simp]: "listLoop dir pos None s = Some s"
  by (simp add: listLoop.simps)

lemma listLoop_Some:
  "listLoop dir pos (Some e) s =
     listLoop dir (Suc pos) (entries dir pos) ((print (entryLine e) s)\<lparr>reads := Suc (reads s)\<rparr>)"
  by (subst listLoop.simps) (simp add: openNextFile_def)

lemma only_io_alt:
  "only_io s s' \<longleftrightarrow>
     s' = s\<lparr>serial := serial s', reads := reads s'\<rparr> \<and> (\<exists>t. serial s' = serial s @ t)"
proof -
  have "take (length (serial s)) (serial s') = serial s \<longleftrightarrow> (\<exists>t. serial s' = serial s @ t)"
  proof
    assume "take (length (serial s)) (serial s') = serial s"
    then have "serial s' = serial s @ drop (length (serial s)) (serial s')"
      by (metis append_take_drop_id)
    then show "\<exists>t. serial s' = serial s @ t" ..
  next
    assume "\<exists>t. serial s' = serial s @ t"
    then show "take (length (serial s)) (serial s') = serial s" by auto
  qed
  then show ?thesis by (simp only: only_io_def)
qed

lemma only_io_refl [simp]: "only_io s s"
  by (simp add: only_io_alt)

lemma only_io_trans:
  assumes "only_io s s'" and "only_io s' s''"
  shows "only_io s s''"
proof -
  from assms(1) have 1: "s' = s\<lparr>serial := serial s', reads := reads s'\<rparr>"
    and "\<exists>t. serial s' = serial s @ t" by (simp_all add: only_io_alt)
  then obtain t where t: "serial s' = serial s @ t" by blast
  from assms(2) have 2: "s'' = s'\<lparr>serial := serial s'', reads := reads s''\<rparr>"
    and "\<exists>u. serial s'' = serial s' @ u" by (simp_all add: only_io_alt)
  then obtain u where u: "serial s'' = serial s' @ u" by blast
  have "s'' = s\<lparr>serial := serial s'', reads := reads s''\<rparr>"
    by (subst 2, subst 1) simp
  moreover have "serial s'' = serial s @ (t @ u)"
    by (simp add: t u)
  ultimately show ?thesis
    unfolding only_io_alt by blast
qed

lemma listLoop_only_io: "listLoop dir pos cur s = Some s' \<Longrightarrow> only_io s s'"
proof (induct rule: listLoop.raw_induct [rotated 1, consumes 1])
  case (1 listLoop dir pos cur s s')
  show ?case
  proof (cases cur)
    case None
    with 1(2) show ?thesis by simp
  next
    case (Some e)
    from 1(2) Some have "only_io ((print (entryLine e) s)\<lparr>reads := Suc (reads s)\<rparr>) s'"
      using 1(1) by (auto simp: openNextFile_def)
    moreover have "only_io s ((print (entryLine e) s)\<lparr>reads := Suc (reads s)\<rparr>)"
      by (simp add: only_io_alt print_def)
    ultimately show ?thesis by (rule only_io_trans [rotated])
  qed
qed

lemma only_io_fields:
  assumes "only_io s s'"
  shows "count s' = count s" "begins s' = begins s" "toggles s' = toggles s" "clock s' = clock s"
    "pin s' = pin s" "isOn s' = isOn s" "np_shown s' = np_shown s" "np_buffer s' = np_buffer s"
proof -
  from assms have eq: "s' = s\<lparr>serial := serial s', reads := reads s'\<rparr>"
    by (simp add: only_io_alt)
  show "count s' = count s" by (subst eq) simp
  show "begins s' = begins s" by (subst eq) simp
  show "toggles s' = toggles s" by (subst eq) simp
  show "clock s' = clock s" by (subst eq) simp
  show "pin s' = pin s" by (subst eq) simp
  show "isOn s' = isOn s" by (subst eq) simp
  show "np_shown s' = np_shown s" by (subst eq) simp
  show "np_buffer s' = np_buffer s" by (subst eq) simp
qed

lemma only_io_print: "only_io s s' \<Longrightarrow> only_io s (print t s')"
  by (rule only_io_trans [of _ s']) (simp_all add: only_io_alt print_def)

lemma only_io_println: "only_io s s' \<Longrightarrow> only_io s (println t s')"
  by (simp add: println_def only_io_print)

lemma only_io_reads: "only_io s s' \<Longrightarrow> only_io s (s'\<lparr>reads := r\<rparr>)"
  by (rule only_io_trans [of _ s']) (simp_all add: only_io_alt)

lemmas only_io_intros = only_io_refl only_io_print only_io_println only_io_reads

lemma listFiles_error:
  "open_fs fs path = None \<or> \<not> isDirectory (the (open_fs fs path)) \<Longrightarrow>
   listFiles fs path s = Some (println ''Error: Could not open root directory.'' (println [] s))"
  by (auto simp: listFiles_def Let_def)

lemma listFiles_dir:
  "open_fs fs path = Some d \<Longrightarrow> isDirectory d \<Longrightarrow>
   listFiles fs path s =
     listLoop d (Suc 0) (entries d 0)
       (if entries d 0 = None
        then println ''Info: No files found.'' ((println [] s)\<lparr>reads := Suc (reads s)\<rparr>)
        else (println [] s)\<lparr>reads := Suc (reads s)\<rparr>)"
  by (simp add: listFiles_def Let_def openNextFile_def println_def)

lemma listFiles_only_io:
  assumes "listFiles fs path s = Some s'"
  shows "only_io s s'"
proof (cases "open_fs fs path = None \<or> \<not> isDirectory (the (open_fs fs path))")
  case True
  with assms have "s' = println ''Error: Could not open root directory.'' (println [] s)"
    by (simp only: listFiles_error option.inject)
  then show ?thesis by (simp add: only_io_intros)
next
  case False
  then obtain d where d: "open_fs fs path = Some d" "isDirectory d" by auto
  define s3 where "s3 = (if entries d 0 = None
      then println ''Info: No files found.'' ((println [] s)\<lparr>reads := Suc (reads s)\<rparr>)
      else (println [] s)\<lparr>reads := Suc (reads s)\<rparr>)"
  from assms have "listLoop d (Suc 0) (entries d 0) s3 = Some s'"
    unfolding s3_def listFiles_dir [OF d] .
  then have "only_io s3 s'" by (rule listLoop_only_io)
  moreover have "only_io s s3" by (simp add: s3_def only_io_intros)
  ultimately show ?thesis by (rule only_io_trans [rotated])
qed

lemma printLittleFsUsage_only_io: "only_io s (printLittleFsUsage fs s)"
  by (simp add: printLittleFsUsage_def Let_def only_io_intros)

lemma initLittleFs_frame:
  assumes "initLittleFs fs s = Some s'"
  shows "only_io (s\<lparr>begins := Suc (begins s)\<rparr>) s'"
proof -
  let ?b = "s\<lparr>begins := Suc (begins s)\<rparr>"
  let ?s2 = "println (LF @ LF @ ''Initializing LittleFS...'') ?b"
  have s2: "(println (LF @ LF @ ''Initializing LittleFS...'') s)
              \<lparr>begins := Suc (begins (println (LF @ LF @ ''Initializing LittleFS...'') s))\<rparr> = ?s2"
    by (simp add: println_def print_def)
  have b2: "only_io ?b ?s2" by (simp add: only_io_intros)
  show ?thesis
  proof (cases "begin_ok fs")
    case False
    with assms have "s' = println ''Error: LittleFS initialization failed.'' ?s2"
      by (simp add: initLittleFs_def Let_def s2)
    with b2 show ?thesis by (simp add: only_io_println)
  next
    case True
    let ?s3 = "printLittleFsUsage fs (println ''Info: LittleFS initialization OK.'' ?s2)"
    from True assms obtain s4 where s4: "listFiles fs ''/'' ?s3 = Some s4" and s': "s' = println LF s4"
      by (auto simp: initLittleFs_def Let_def s2 split: option.splits)
    have "only_io ?s2 ?s3"
      by (rule only_io_trans [OF _ printLittleFsUsage_only_io]) (simp add: only_io_intros)
    with b2 have "only_io ?b ?s3" by (rule only_io_trans)
    moreover from s4 have "only_io ?s3 s4" by (rule listFiles_only_io)
    ultimately have "only_io ?b s4" by (rule only_io_trans)
    then show ?thesis by (simp add: s' only_io_println)
  qed
qed

lemma toggleOutput_fields [simp]:
  "count (toggleOutput cfg s) = count s" "begins (toggleOutput cfg s) = begins s"
  "clock (toggleOutput cfg s) = clock s" "toggles (toggleOutput cfg s) = Suc (toggles s)"
  "reads (toggleOutput cfg s) = reads s"
  by (simp_all add: toggleOutput_def Let_def println_def)

lemma loop_step:
  assumes "loop cfg fs s = Some s'"
  shows "toggles s' = Suc (toggles s)"
    and "10 < count s \<Longrightarrow> count s' = 0 \<and> begins s' = Suc (begins s) \<and> clock s' = clock s + 4500"
    and "\<not> 10 < count s \<Longrightarrow>
           count s' = signed_take_bit 31 (count s + 1) \<and> begins s' = begins s \<and> clock s' = clock s + 2500"
proof -
  let ?s1 = "delay 2500 (toggleOutput cfg s)"
  have c1: "count ?s1 = count s" "toggles ?s1 = Suc (toggles s)" "begins ?s1 = begins s"
    "clock ?s1 = clock s + 2500"
    by (simp_all add: delay_def)
  {
    assume hi: "10 < count s"
    with assms c1 obtain s2 where s2: "initLittleFs fs ?s1 = Some s2" and s': "s' = delay 2000 (s2\<lparr>count := 0\<rparr>)"
      by (auto simp: loop_def Let_def split: option.splits)
    from s2 have io: "only_io (?s1\<lparr>begins := Suc (begins ?s1)\<rparr>) s2" by (rule initLittleFs_frame)
    have "toggles s2 = Suc (toggles s)" "begins s2 = Suc (begins s)" "clock s2 = clock s + 2500"
      using only_io_fields(3) [OF io] only_io_fields(2) [OF io] only_io_fields(4) [OF io] c1
      by simp_all
    then have "toggles s' = Suc (toggles s) \<and> count s' = 0 \<and> begins s' = Suc (begins s) \<and> clock s' = clock s + 4500"
      by (simp add: s' delay_def)
  } note hi = this
  {
    assume lo: "\<not> 10 < count s"
    with assms c1 have "s' = ?s1\<lparr>count := signed_take_bit 31 (count ?s1 + 1)\<rparr>"
      by (auto simp: loop_def Let_def)
    then have "toggles s' = Suc (toggles s) \<and> count s' = signed_take_bit 31 (count s + 1) \<and> begins s' = begins s \<and> clock s' = clock s + 2500"
      using c1 by simp
  } note lo = this
  show "toggles s' = Suc (toggles s)" using hi lo by blast
  show "10 < count s \<Longrightarrow> count s' = 0 \<and> begins s' = Suc (begins s) \<and> clock s' = clock s + 4500"
    using hi by blast
  show "\<not> 10 < count s \<Longrightarrow>
           count s' = signed_take_bit 31 (count s + 1) \<and> begins s' = begins s \<and> clock s' = clock s + 2500"
    using lo by blast
qed

subsection \<open>The cycle counter\<close>

lemma int_count_step:
  fixes c :: int
  shows "0 \<le> c \<Longrightarrow> c \<le> 11 \<Longrightarrow> signed_take_bit 31 (c + 1) = c + 1"
  by (rule signed_take_bit_int_eq_self) simp_all

lemma mod12_wrap: "m mod 12 = 11 \<Longrightarrow> Suc m mod 12 = 0 \<and> Suc m div 12 = Suc (m div 12)"
  by (simp add: mod_Suc div_Suc)

lemma mod12_step: "m mod 12 < 11 \<Longrightarrow> Suc m mod 12 = Suc (m mod 12) \<and> Suc m div 12 = m div 12"
  by (simp add: mod_Suc div_Suc)

lemma run_invariant:
  assumes "count s = 5" and "run cfg env n s = Some s'"
  shows "count s' = int ((n + 5) mod 12) \<and> toggles s' = toggles s + n \<and>
         begins s' = begins s + (n + 5) div 12 \<and>
         clock s' = clock s + 2500 * n + 2000 * ((n + 5) div 12)"
  using assms(2)
proof (induction n arbitrary: s')
  case 0
  with assms(1) show ?case by simp
next
  case (Suc n)
  from Suc.prems obtain s1 where s1: "run cfg env n s = Some s1" and l: "loop cfg (env n) s1 = Some s'"
    by (auto split: option.splits)
  note ih = Suc.IH [OF s1]
  show ?case
  proof (cases "10 < count s1")
    case True
    with ih have m: "(n + 5) mod 12 = 11" by simp
    then have "(Suc n + 5) mod 12 = 0" "(Suc n + 5) div 12 = Suc ((n + 5) div 12)"
      using mod12_wrap [of "n + 5"] by (simp_all only: add_Suc)
    with loop_step(1) [OF l] loop_step(2) [OF l True] ih show ?thesis
      by simp
  next
    case False
    with ih have m: "(n + 5) mod 12 < 11" by simp
    then have a: "(Suc n + 5) mod 12 = Suc ((n + 5) mod 12)" "(Suc n + 5) div 12 = (n + 5) div 12"
      using mod12_step [of "n + 5"] by (simp_all only: add_Suc)
    have "signed_take_bit 31 (count s1 + 1) = count s1 + 1"
      using ih m by (intro int_count_step) simp_all
    with loop_step(1) [OF l] loop_step(3) [OF l False] ih a show ?thesis
      by simp
  qed
qed

subsection \<open>Listing a directory whose entries end\<close>

lemma listLoop_finite:
  assumes "\<forall>i<n. entries d (pos + i) \<noteq> None" and "entries d (pos + n) = None"
  shows "listLoop d pos (Some e) s =
           Some (s\<lparr>serial := serial s @ entryLine e @
                               concat (map (\<lambda>i. entryLine (the (entries d (pos + i)))) [0..<n]),
                    reads := reads s + n + 1\<rparr>)"
  using assms
proof (induction n arbitrary: pos e s)
  case 0
  then show ?case by (simp add: listLoop_Some print_def)
next
  case (Suc n)
  from Suc.prems(1) obtain e' where e': "entries d pos = Some e'"
    by (metis add.right_neutral not_None_eq zero_less_Suc)
  have 1: "\<forall>i<n. entries d (Suc pos + i) \<noteq> None"
    using Suc.prems(1) by (metis Suc_less_eq add_Suc_shift)
  have 2: "entries d (Suc pos + n) = None"
    using Suc.prems(2) by simp
  let ?s1 = "(print (entryLine e) s)\<lparr>reads := Suc (reads s)\<rparr>"
  have "listLoop d pos (Some e) s = listLoop d (Suc pos) (Some e') ?s1"
    by (simp only: listLoop_Some e')
  also note Suc.IH [OF 1 2]
  finally show ?case
    by (simp add: e' print_def map_upt_Suc del: upt_Suc)
qed

lemma listFiles_finite:
  assumes "open_fs fs path = Some d" and "isDirectory d"
    and "\<forall>i<n. entries d i \<noteq> None" and "entries d n = None"
  shows "listFiles fs path s =
           Some (s\<lparr>serial := serial s @ CRLF @
                               (if n = 0 then ''Info: No files found.'' @ CRLF else []) @
                               concat (map (\<lambda>i. entryLine (the (entries d i))) [0..<n]),
                    reads := reads s + n + 1\<rparr>)"
proof (cases n)
  case 0
  with assms(4) show ?thesis
    by (simp add: listFiles_dir [OF assms(1,2)] println_def print_def)
next
  case (Suc m)
  with assms(3) obtain e0 where e0: "entries d 0 = Some e0" by auto
  have 1: "\<forall>i<m. entries d (Suc 0 + i) \<noteq> None"
    using assms(3) Suc by simp
  have 2: "entries d (Suc 0 + m) = None"
    using assms(4) Suc by simp
  show ?thesis
    by (simp add: listFiles_dir [OF assms(1,2)] e0 listLoop_finite [OF 1 2] Suc
        println_def print_def map_upt_Suc del: upt_Suc)
qed

subsection \<open>C4: an empty directory\<close>

text \<open>
  Claim C4. When the root directory opens and its first \<open>openNextFile\<close> returns nothing,
  \<open>listFiles\<close> returns, having written the blank line and the line
  \<open>Info: No files found.\<close> and nothing else: the message is there once, there is no
  error message and no entry line, and \<open>openNextFile\<close> was called once.
\<close>

theorem empty_directory:
  assumes "open_fs fs path = Some d" and "isDirectory d" and "entries d 0 = None"
  shows "listFiles fs path s =
           Some (s\<lparr>serial := serial s @ CRLF @ ''Info: No files found.'' @ CRLF,
                    reads := reads s + 1\<rparr>) \<and>
         occurrences ''Info: No files found.'' (CRLF @ ''Info: No files found.'' @ CRLF) = 1 \<and>
         occurrences ''Error'' (CRLF @ ''Info: No files found.'' @ CRLF) = 0 \<and>
         occurrences ''FILE: '' (CRLF @ ''Info: No files found.'' @ CRLF) = 0 \<and>
         occurrences ''DIR : '' (CRLF @ ''Info: No files found.'' @ CRLF) = 0"
proof -
  have "listFiles fs path s =
           Some (s\<lparr>serial := serial s @ CRLF @ ''Info: No files found.'' @ CRLF,
                    reads := reads s + 1\<rparr>)"
    using listFiles_finite [OF assms(1,2), of 0 s] assms(3) by simp
  moreover have "occurrences ''Info: No files found.'' (CRLF @ ''Info: No files found.'' @ CRLF) = 1"
    by (simp add: CRLF_def)
  moreover have "occurrences ''Error'' (CRLF @ ''Info: No files found.'' @ CRLF) = 0"
    by (simp add: CRLF_def)
  moreover have "occurrences ''FILE: '' (CRLF @ ''Info: No files found.'' @ CRLF) = 0"
    by (simp add: CRLF_def)
  moreover have "occurrences ''DIR : '' (CRLF @ ''Info: No files found.'' @ CRLF) = 0"
    by (simp add: CRLF_def)
  ultimately show ?thesis by blast
qed

theorem empty_directory_witness:
  "listFiles fs_empty ''/'' (boot False) =
     Some ((boot False)\<lparr>serial := CRLF @ ''Info: No files found.'' @ CRLF, reads := 1\<rparr>)"
proof -
  have 1: "open_fs fs_empty ''/'' = Some (File True ''/'' 0 no_entries)"
    by (simp add: fs_empty_def)
  have 2: "isDirectory (File True ''/'' 0 no_entries)" by simp
  have 3: "entries (File True ''/'' 0 no_entries) 0 = None" by (simp add: no_entries_def)
  from empty_directory [OF 1 2 3, of "boot False"] show ?thesis
    by (simp add: boot_def)
qed

subsection \<open>C5: a root path that does not open as a directory\<close>

lemma initLittleFs_fail:
  "\<not> begin_ok fs \<Longrightarrow>
   initLittleFs fs s =
     Some (s\<lparr>serial := serial s @ LF @ LF @ ''Initializing LittleFS...'' @ CRLF @
                         ''Error: LittleFS initialization failed.'' @ CRLF,
              begins := Suc (begins s)\<rparr>)"
  by (simp add: initLittleFs_def Let_def println_def print_def)

lemma initLittleFs_ok:
  "begin_ok fs \<Longrightarrow>
   initLittleFs fs s =
     map_option (println LF)
       (listFiles fs ''/''
          (printLittleFsUsage fs
             (println ''Info: LittleFS initialization OK.''
                ((println (LF @ LF @ ''Initializing LittleFS...'') s)\<lparr>begins := Suc (begins s)\<rparr>))))"
  by (simp add: initLittleFs_def Let_def println_def print_def split: option.splits)

lemma listLoop_reads_mono: "listLoop dir pos cur s = Some s' \<Longrightarrow> reads s \<le> reads s'"
proof (induct rule: listLoop.raw_induct [rotated 1, consumes 1])
  case (1 listLoop dir pos cur s s')
  show ?case
  proof (cases cur)
    case None
    with 1(2) show ?thesis by simp
  next
    case (Some e)
    with 1(2) have "listLoop dir (Suc pos) (entries dir pos)
        ((print (entryLine e) s)\<lparr>reads := Suc (reads s)\<rparr>) = Some s'"
      by (simp add: openNextFile_def)
    then have "reads ((print (entryLine e) s)\<lparr>reads := Suc (reads s)\<rparr>) \<le> reads s'"
      by (rule 1(1))
    then show ?thesis by simp
  qed
qed

lemma entryLine_not_error:
  "take 5 (entryLine e @ t) \<noteq> ''Error''"
  by (simp add: entryLine_def)

lemma listFiles_dir_emitted:
  assumes "open_fs fs path = Some d" and "isDirectory d" and "listFiles fs path s = Some s'"
  shows "reads s < reads s' \<and> take 5 (drop 2 (emitted s s')) \<noteq> ''Error''"
proof -
  let ?s2 = "(println [] s)\<lparr>reads := Suc (reads s)\<rparr>"
  show ?thesis
  proof (cases "entries d 0")
    case None
    with assms(3) have "s' = println ''Info: No files found.'' ?s2"
      by (simp add: listFiles_dir [OF assms(1,2)])
    then show ?thesis
      by (simp add: emitted_def println_def print_def CRLF_def)
  next
    case (Some e)
    let ?s3 = "(print (entryLine e) ?s2)\<lparr>reads := Suc (reads ?s2)\<rparr>"
    from assms(3) Some have l: "listLoop d (Suc (Suc 0)) (entries d (Suc 0)) ?s3 = Some s'"
      by (simp add: listFiles_dir [OF assms(1,2)] listLoop_Some)
    from listLoop_only_io [OF l] obtain t where "serial s' = serial ?s3 @ t"
      by (auto simp: only_io_alt)
    then have "drop 2 (emitted s s') = entryLine e @ t"
      by (simp add: emitted_def println_def print_def CRLF_def)
    then have "take 5 (drop 2 (emitted s s')) \<noteq> ''Error''"
      by (simp only: entryLine_not_error not_False_eq_True)
    moreover from listLoop_reads_mono [OF l] have "reads s < reads s'" by simp
    ultimately show ?thesis by blast
  qed
qed

text \<open>
  Claim C5. \<open>listFiles\<close> takes its error branch exactly when \<open>open\<close> returns the empty
  \<open>File\<close> (no such path) or something that is not a directory. Then it writes the blank
  line and the error line, reads no entry and returns; \<open>initLittleFs\<close>, its caller, goes
  on with its closing \<open>println\<close> and returns as after a listing. When the path opens as a
  directory, a call that returns has read the directory and the line after the blank line
  is not the error line.
\<close>

theorem open_error:
  "(open_fs fs path = None \<or> \<not> isDirectory (the (open_fs fs path)) \<longrightarrow>
      listFiles fs path s =
        Some (s\<lparr>serial := serial s @ CRLF @ ''Error: Could not open root directory.'' @ CRLF\<rparr>)) \<and>
   (begin_ok fs \<and> (open_fs fs ''/'' = None \<or> \<not> isDirectory (the (open_fs fs ''/''))) \<longrightarrow>
      initLittleFs fs s =
        Some (println LF (println ''Error: Could not open root directory.''
          (println [] (printLittleFsUsage fs (println ''Info: LittleFS initialization OK.''
             ((println (LF @ LF @ ''Initializing LittleFS...'') s)\<lparr>begins := Suc (begins s)\<rparr>))))))) \<and>
   (\<not> (open_fs fs path = None \<or> \<not> isDirectory (the (open_fs fs path))) \<longrightarrow>
      (\<forall>s'. listFiles fs path s = Some s' \<longrightarrow>
         reads s < reads s' \<and> take 5 (drop 2 (emitted s s')) \<noteq> ''Error''))"
proof (intro conjI impI allI)
  assume "open_fs fs path = None \<or> \<not> isDirectory (the (open_fs fs path))"
  then show "listFiles fs path s =
        Some (s\<lparr>serial := serial s @ CRLF @ ''Error: Could not open root directory.'' @ CRLF\<rparr>)"
    by (simp add: listFiles_error println_def print_def)
next
  assume "begin_ok fs \<and> (open_fs fs ''/'' = None \<or> \<not> isDirectory (the (open_fs fs ''/'')))"
  then show "initLittleFs fs s =
        Some (println LF (println ''Error: Could not open root directory.''
          (println [] (printLittleFsUsage fs (println ''Info: LittleFS initialization OK.''
             ((println (LF @ LF @ ''Initializing LittleFS...'') s)\<lparr>begins := Suc (begins s)\<rparr>))))))"
    by (simp add: initLittleFs_ok listFiles_error)
next
  fix s'
  assume "\<not> (open_fs fs path = None \<or> \<not> isDirectory (the (open_fs fs path)))"
    and l: "listFiles fs path s = Some s'"
  then obtain d where "open_fs fs path = Some d" "isDirectory d" by auto
  from listFiles_dir_emitted [OF this l]
  show "reads s < reads s'" and "take 5 (drop 2 (emitted s s')) \<noteq> ''Error''"
    by simp_all
qed

lemma upt_0_2: "[0..<2] = [0, Suc 0]"
  by (simp add: numeral_2_eq_2)

lemma all_less_2: "(\<forall>i<2. P i) \<longleftrightarrow> P 0 \<and> P (Suc 0)"
  by (auto simp: numeral_2_eq_2 less_Suc_eq)

lemma demo_entries:
  "open_fs fs_demo ''/'' = Some demo_root" "isDirectory demo_root"
  "entries demo_root 0 = Some data_bin" "entries demo_root (Suc 0) = Some logs"
  "entries demo_root 2 = None"
  by (simp_all add: fs_demo_def demo_root_def)

theorem open_error_witness:
  "listFiles fs_plain ''/'' (boot False) =
     Some ((boot False)\<lparr>serial := CRLF @ ''Error: Could not open root directory.'' @ CRLF\<rparr>) \<and>
   reads (boot False) < reads (the (listFiles fs_demo ''/'' (boot False))) \<and>
   take 5 (drop 2 (emitted (boot False) (the (listFiles fs_demo ''/'' (boot False))))) \<noteq> ''Error''"
proof -
  have 1: "open_fs fs_plain ''/'' = None \<or> \<not> isDirectory (the (open_fs fs_plain ''/''))"
    by (simp add: fs_plain_def data_bin_def)
  have 2: "\<not> (open_fs fs_demo ''/'' = None \<or> \<not> isDirectory (the (open_fs fs_demo ''/'')))"
    by (simp add: demo_entries)
  have "\<forall>i<2. entries demo_root i \<noteq> None"
    by (simp add: demo_root_def all_less_2)
  from listFiles_finite [OF demo_entries(1,2) this demo_entries(5)]
  obtain s' where 3: "listFiles fs_demo ''/'' (boot False) = Some s'" by blast
  from open_error [of fs_plain "''/''" "boot False"] 1
  have "listFiles fs_plain ''/'' (boot False) =
     Some ((boot False)\<lparr>serial := CRLF @ ''Error: Could not open root directory.'' @ CRLF\<rparr>)"
    by (simp add: boot_def)
  moreover from open_error [of fs_demo "''/''" "boot False"] 2 3
  have "reads (boot False) < reads s' \<and> take 5 (drop 2 (emitted (boot False) s')) \<noteq> ''Error''"
    by blast
  ultimately show ?thesis by (simp add: 3)
qed

subsection \<open>C7: the file data.bin and the directory logs\<close>

text \<open>
  Claim C7 as stated fails: for the root directory with the file \<open>data.bin\<close> of 42 bytes and
  the directory \<open>logs\<close>, the text written has neither \<open>FILE: data.bin SIZE: 42\<close> nor
  \<open>DIR: logs\<close> in it. The program writes a tab before \<open>SIZE:\<close> and the prefix
  \<open>DIR :\<close> with a space before the colon.
\<close>

theorem two_entries_counterexample:
  "listFiles fs_demo ''/'' (boot False) =
     Some ((boot False)\<lparr>serial := CRLF @ ''FILE: data.bin'' @ TAB @ ''SIZE: 42'' @ LF @ ''DIR : logs'' @ CRLF,
                         reads := 3\<rparr>) \<and>
   occurrences ''FILE: data.bin SIZE: 42''
     (CRLF @ ''FILE: data.bin'' @ TAB @ ''SIZE: 42'' @ LF @ ''DIR : logs'' @ CRLF) = 0 \<and>
   occurrences ''DIR: logs''
     (CRLF @ ''FILE: data.bin'' @ TAB @ ''SIZE: 42'' @ LF @ ''DIR : logs'' @ CRLF) = 0"
proof -
  have "\<forall>i<2. entries demo_root i \<noteq> None"
    by (simp add: demo_root_def all_less_2)
  from listFiles_finite [OF demo_entries(1,2) this demo_entries(5), of "boot False"]
  have "listFiles fs_demo ''/'' (boot False) =
     Some ((boot False)\<lparr>serial := CRLF @ ''FILE: data.bin'' @ TAB @ ''SIZE: 42'' @ LF @ ''DIR : logs'' @ CRLF,
                         reads := 3\<rparr>)"
    by (simp add: boot_def demo_root_def data_bin_def logs_def entryLine_def show_nat.simps digit_def
        upt_0_2)
  moreover have "occurrences ''FILE: data.bin SIZE: 42''
     (CRLF @ ''FILE: data.bin'' @ TAB @ ''SIZE: 42'' @ LF @ ''DIR : logs'' @ CRLF) = 0"
    by (simp add: CRLF_def LF_def TAB_def)
  moreover have "occurrences ''DIR: logs''
     (CRLF @ ''FILE: data.bin'' @ TAB @ ''SIZE: 42'' @ LF @ ''DIR : logs'' @ CRLF) = 0"
    by (simp add: CRLF_def LF_def TAB_def)
  ultimately show ?thesis by blast
qed

text \<open>
  Claim C7, amended. For a directory that enumerates two entries and then ends,
  \<open>listFiles\<close> writes the blank line and then one line per entry, in the order of the
  enumeration; the line of the file is \<open>FILE: data.bin\<close>, a tab, \<open>SIZE: 42\<close> and a line
  feed, the line of the directory is \<open>DIR : logs\<close> and CR LF.
\<close>

theorem two_entries:
  assumes "open_fs fs path = Some d" and "isDirectory d"
    and "entries d 0 = Some e0" and "entries d 1 = Some e1" and "entries d 2 = None"
  shows "listFiles fs path s =
           Some (s\<lparr>serial := serial s @ CRLF @ entryLine e0 @ entryLine e1, reads := reads s + 3\<rparr>) \<and>
         entryLine (File False ''data.bin'' 42 sub) = ''FILE: data.bin'' @ TAB @ ''SIZE: 42'' @ LF \<and>
         entryLine (File True ''logs'' sz sub') = ''DIR : logs'' @ CRLF"
proof -
  have "\<forall>i<2. entries d i \<noteq> None"
    using assms(3,4) by (simp add: all_less_2)
  from listFiles_finite [OF assms(1,2) this assms(5), of s]
  have "listFiles fs path s =
           Some (s\<lparr>serial := serial s @ CRLF @ entryLine e0 @ entryLine e1, reads := reads s + 3\<rparr>)"
    using assms(3,4) by (simp add: upt_0_2)
  moreover have "entryLine (File False ''data.bin'' 42 sub) = ''FILE: data.bin'' @ TAB @ ''SIZE: 42'' @ LF"
    by (simp add: entryLine_def show_nat.simps digit_def)
  moreover have "entryLine (File True ''logs'' sz sub') = ''DIR : logs'' @ CRLF"
    by (simp add: entryLine_def)
  ultimately show ?thesis by blast
qed

theorem two_entries_witness:
  "listFiles fs_demo ''/'' (boot False) =
     Some ((boot False)\<lparr>serial := CRLF @ entryLine data_bin @ entryLine logs, reads := 3\<rparr>)"
proof -
  have 4: "entries demo_root 1 = Some logs" by (simp add: demo_root_def)
  from two_entries [OF demo_entries(1,2,3) 4 demo_entries(5), of "boot False"]
  show ?thesis by (simp add: boot_def)
qed

subsection \<open>C3: the output toggler\<close>

lemma toggleOutput_flip:
  "USE_LED cfg \<Longrightarrow> pin (toggleOutput cfg s) = (\<not> pin s)"
  "USE_NEOPIXEL cfg \<Longrightarrow> isOn (toggleOutput cfg s) = (\<not> isOn s)"
  "USE_NEOPIXEL cfg \<Longrightarrow>
     np_buffer (toggleOutput cfg s) =
       (if isOn s then 0 else if 0 < NEOPIXEL_COUNT cfg then 0x0000FF else np_buffer s)"
  "USE_NEOPIXEL cfg \<Longrightarrow> np_shown (toggleOutput cfg s) = np_buffer (toggleOutput cfg s)"
  by (simp_all add: toggleOutput_def Let_def println_def print_def)

lemma initOutput_off:
  "USE_LED cfg \<Longrightarrow> \<not> pin (initOutput cfg s)"
  "isOn (initOutput cfg s) = isOn s"
  "USE_NEOPIXEL cfg \<Longrightarrow> np_shown (initOutput cfg s) = 0 \<and> np_buffer (initOutput cfg s) = 0"
  by (simp_all add: initOutput_def Let_def print_def)

lemma toggle_parity:
  "(USE_LED cfg \<longrightarrow> pin ((toggleOutput cfg ^^ n) s) = (pin s \<noteq> odd n)) \<and>
   (USE_NEOPIXEL cfg \<longrightarrow> isOn ((toggleOutput cfg ^^ n) s) = (isOn s \<noteq> odd n))"
  by (induction n) (auto simp: toggleOutput_flip)

lemma pixel_parity:
  assumes "USE_NEOPIXEL cfg" and "\<not> isOn s" and "np_shown s = 0" and "np_buffer s = 0"
  shows "np_shown ((toggleOutput cfg ^^ n) s) = (if odd n \<and> 0 < NEOPIXEL_COUNT cfg then 0x0000FF else 0) \<and>
         np_buffer ((toggleOutput cfg ^^ n) s) = (if odd n \<and> 0 < NEOPIXEL_COUNT cfg then 0x0000FF else 0)"
proof (induction n)
  case 0
  with assms show ?case by simp
next
  case (Suc n)
  from toggle_parity [of cfg n s] assms(1,2)
  have on: "isOn ((toggleOutput cfg ^^ n) s) = odd n" by simp
  show ?case
    using Suc on assms(1) by (simp add: toggleOutput_flip)
qed

text \<open>
  Claim C3. \<open>toggleOutput\<close> flips the state at every call, without a condition: the level
  of the LED pin in the LED build, the flag \<open>isOn\<close> in the NeoPixel build. After
  \<open>initOutput\<close> at boot the state is off, so after \<open>n\<close> calls it is on exactly when \<open>n\<close>
  is odd; in the NeoPixel build the pixel shows blue exactly then (if the strip has a
  pixel), and nothing otherwise.
\<close>

theorem toggler_parity:
  "(USE_LED cfg \<longrightarrow>
      pin (toggleOutput cfg s) = (\<not> pin s) \<and>
      pin ((toggleOutput cfg ^^ n) (initOutput cfg (boot p))) = odd n) \<and>
   (USE_NEOPIXEL cfg \<longrightarrow>
      isOn (toggleOutput cfg s) = (\<not> isOn s) \<and>
      isOn ((toggleOutput cfg ^^ n) (initOutput cfg (boot p))) = odd n \<and>
      np_shown ((toggleOutput cfg ^^ n) (initOutput cfg (boot p))) =
        (if odd n \<and> 0 < NEOPIXEL_COUNT cfg then 0x0000FF else 0))"
proof (intro conjI impI)
  assume led: "USE_LED cfg"
  then show "pin (toggleOutput cfg s) = (\<not> pin s)" by (rule toggleOutput_flip)
  from toggle_parity [of cfg n "initOutput cfg (boot p)"] led initOutput_off(1) [OF led, of "boot p"]
  show "pin ((toggleOutput cfg ^^ n) (initOutput cfg (boot p))) = odd n" by simp
next
  assume np: "USE_NEOPIXEL cfg"
  then show "isOn (toggleOutput cfg s) = (\<not> isOn s)" by (rule toggleOutput_flip)
  have off: "\<not> isOn (initOutput cfg (boot p))"
    by (simp add: initOutput_off boot_def)
  from toggle_parity [of cfg n "initOutput cfg (boot p)"] np off
  show "isOn ((toggleOutput cfg ^^ n) (initOutput cfg (boot p))) = odd n" by simp
  from pixel_parity [OF np off, of n] initOutput_off(3) [OF np, of "boot p"]
  show "np_shown ((toggleOutput cfg ^^ n) (initOutput cfg (boot p))) =
        (if odd n \<and> 0 < NEOPIXEL_COUNT cfg then 0x0000FF else 0)" by simp
qed

theorem toggler_parity_witness:
  "pin ((toggleOutput cfg_led ^^ 3) (initOutput cfg_led (boot False))) \<and>
   \<not> pin ((toggleOutput cfg_led ^^ 4) (initOutput cfg_led (boot True))) \<and>
   isOn ((toggleOutput cfg_pixel ^^ 3) (initOutput cfg_pixel (boot False))) \<and>
   np_shown ((toggleOutput cfg_pixel ^^ 3) (initOutput cfg_pixel (boot False))) = 0x0000FF \<and>
   np_shown ((toggleOutput cfg_pixel ^^ 4) (initOutput cfg_pixel (boot False))) = 0"
proof -
  have led: "USE_LED cfg_led" and np: "USE_NEOPIXEL cfg_pixel" and c: "0 < NEOPIXEL_COUNT cfg_pixel"
    by (simp_all add: cfg_led_def cfg_pixel_def)
  from toggler_parity [of cfg_led "boot False" 3 False] led
  have "pin ((toggleOutput cfg_led ^^ 3) (initOutput cfg_led (boot False)))" by simp
  moreover from toggler_parity [of cfg_led "boot False" 4 True] led
  have "\<not> pin ((toggleOutput cfg_led ^^ 4) (initOutput cfg_led (boot True)))" by simp
  moreover from toggler_parity [of cfg_pixel "boot False" 3 False] np c
  have "isOn ((toggleOutput cfg_pixel ^^ 3) (initOutput cfg_pixel (boot False))) \<and>
        np_shown ((toggleOutput cfg_pixel ^^ 3) (initOutput cfg_pixel (boot False))) = 0x0000FF"
    by simp
  moreover from toggler_parity [of cfg_pixel "boot False" 4 False] np c
  have "np_shown ((toggleOutput cfg_pixel ^^ 4) (initOutput cfg_pixel (boot False))) = 0" by simp
  ultimately show ?thesis by blast
qed

subsection \<open>The main loop when every mount fails\<close>

lemma loop_fail:
  "\<not> begin_ok fs \<Longrightarrow> \<exists>s'. loop cfg fs s = Some s' \<and> reads s' = reads s"
  by (simp add: loop_def Let_def initLittleFs_fail delay_def toggleOutput_def println_def print_def)

lemma run_fail:
  assumes "\<forall>i. \<not> begin_ok (env i)"
  shows "\<exists>s'. run cfg env n s = Some s' \<and> reads s' = reads s"
proof (induction n)
  case 0
  show ?case by simp
next
  case (Suc n)
  then obtain s1 where s1: "run cfg env n s = Some s1" "reads s1 = reads s" by blast
  from assms have "\<not> begin_ok (env n)" by simp
  from loop_fail [OF this, of cfg s1] s1 show ?case by simp
qed

lemma env_fail_all: "\<forall>i. \<not> begin_ok (env_fail i)"
  by (simp add: env_fail_def fs_fail_def)

lemma run_reachable:
  "count s = 5 \<Longrightarrow> run cfg env n s = Some s' \<Longrightarrow> reachable cfg s'"
proof (induction n arbitrary: s')
  case 0
  then show ?case by (simp add: reachable.start)
next
  case (Suc n)
  from Suc.prems(2) obtain s1 where "run cfg env n s = Some s1" "loop cfg (env n) s1 = Some s'"
    by (auto split: option.splits)
  with Suc.IH [OF Suc.prems(1)] show ?case by (blast intro: reachable.step)
qed

subsection \<open>C10: the cycle counter stays between 0 and 11\<close>

lemma reachable_count: "reachable cfg s \<Longrightarrow> 0 \<le> count s \<and> count s \<le> 11"
proof (induction rule: reachable.induct)
  case (start s)
  then show ?case by simp
next
  case (step s fs s')
  show ?case
  proof (cases "10 < count s")
    case True
    with loop_step(2) [OF step.hyps(2)] show ?thesis by simp
  next
    case False
    with step.IH have "signed_take_bit 31 (count s + 1) = count s + 1"
      by (intro int_count_step) simp_all
    with loop_step(3) [OF step.hyps(2) False] False step.IH show ?thesis by simp
  qed
qed

text \<open>
  Claim C10. In every state reachable from \<open>count = 5\<close> by calls of \<open>loop\<close>, \<open>count\<close> is
  between 0 and 11. A call made with \<open>count > 10\<close> mounts again and leaves \<open>count = 0\<close>
  (no increment); any other call mounts nothing and leaves \<open>count\<close> one higher.
\<close>

theorem count_bounds:
  assumes "reachable cfg s"
  shows "0 \<le> count s \<and> count s \<le> 11 \<and>
         (\<forall>fs s'. loop cfg fs s = Some s' \<longrightarrow>
            (if 10 < count s then count s' = 0 \<and> begins s' = Suc (begins s)
             else count s' = count s + 1 \<and> begins s' = begins s))"
proof (intro conjI allI impI)
  from reachable_count [OF assms] show "0 \<le> count s" and "count s \<le> 11" by simp_all
next
  fix fs s'
  assume l: "loop cfg fs s = Some s'"
  show "if 10 < count s then count s' = 0 \<and> begins s' = Suc (begins s)
        else count s' = count s + 1 \<and> begins s' = begins s"
  proof (cases "10 < count s")
    case True
    with loop_step(2) [OF l] show ?thesis by simp
  next
    case False
    with reachable_count [OF assms] have "signed_take_bit 31 (count s + 1) = count s + 1"
      by (intro int_count_step) simp_all
    with loop_step(3) [OF l False] False show ?thesis by simp
  qed
qed


theorem count_bounds_witness:
  "map_option count (run cfg_led env_fail 6 (boot False)) = Some 11 \<and>
   map_option count (run cfg_led env_fail 7 (boot False)) = Some 0 \<and>
   map_option count (run cfg_led env_fail 8 (boot False)) = Some 1"
proof -
  have c: "count (boot False) = 5" by (simp add: boot_def)
  from run_fail [OF env_fail_all, of cfg_led 6 "boot False"]
  obtain s6 where s6: "run cfg_led env_fail 6 (boot False) = Some s6" by blast
  from loop_fail [of "env_fail 6" cfg_led s6] env_fail_all
  obtain s7 where l6: "loop cfg_led (env_fail 6) s6 = Some s7" by blast
  from loop_fail [of "env_fail (Suc 6)" cfg_led s7] env_fail_all
  obtain s8 where l7: "loop cfg_led (env_fail (Suc 6)) s7 = Some s8" by blast
  have s7: "run cfg_led env_fail (Suc 6) (boot False) = Some s7"
    by (simp only: run.simps s6 l6 option.case)
  have s8: "run cfg_led env_fail (Suc (Suc 6)) (boot False) = Some s8"
    by (simp only: run.simps s6 l6 l7 option.case)
  from run_invariant [OF c s6] have c6: "count s6 = 11" by simp
  from count_bounds [OF run_reachable [OF c s6]] l6 c6 have c7: "count s7 = 0" by auto
  from count_bounds [OF run_reachable [OF c s7]] l7 c7 have c8: "count s8 = 1" by auto
  from s6 s7 s8 c6 c7 c8 show ?thesis by simp
qed


subsection \<open>The main loop when every listing ends\<close>

lemma first_end:
  assumes "entries d m = None"
  shows "\<exists>n. (\<forall>i<n. entries d i \<noteq> None) \<and> entries d n = None"
proof (intro exI conjI allI impI)
  show "entries d (LEAST k. entries d k = None) = None"
    using assms by (rule LeastI)
  fix i
  assume "i < (LEAST k. entries d k = None)"
  then show "entries d i \<noteq> None" by (rule not_less_Least)
qed

lemma listFiles_returns:
  assumes "open_fs fs path = None \<or> \<not> isDirectory (the (open_fs fs path)) \<or>
           (\<exists>m. entries (the (open_fs fs path)) m = None)"
  shows "\<exists>s'. listFiles fs path s = Some s'"
proof (cases "open_fs fs path = None \<or> \<not> isDirectory (the (open_fs fs path))")
  case True
  then show ?thesis by (simp add: listFiles_error)
next
  case False
  with assms obtain d m where d: "open_fs fs path = Some d" "isDirectory d" and "entries d m = None"
    by auto
  from first_end [OF this(3)] obtain n where "\<forall>i<n. entries d i \<noteq> None" "entries d n = None"
    by blast
  from listFiles_finite [OF d this] show ?thesis by blast
qed

lemma loop_returns:
  assumes "open_fs fs ''/'' = None \<or> \<not> isDirectory (the (open_fs fs ''/'')) \<or>
           (\<exists>m. entries (the (open_fs fs ''/'')) m = None)"
  shows "\<exists>s'. loop cfg fs s = Some s'"
proof (cases "begin_ok fs")
  case False
  from loop_fail [OF this] show ?thesis by blast
next
  case True
  have "\<exists>s'. initLittleFs fs (delay 2500 (toggleOutput cfg s)) = Some s'"
    using listFiles_returns [OF assms] by (simp add: initLittleFs_ok [OF True])
  then obtain s2 where "initLittleFs fs (delay 2500 (toggleOutput cfg s)) = Some s2" by blast
  then show ?thesis
    by (simp add: loop_def Let_def)
qed

lemma run_returns:
  assumes "\<forall>i. open_fs (env i) ''/'' = None \<or> \<not> isDirectory (the (open_fs (env i) ''/'')) \<or>
           (\<exists>m. entries (the (open_fs (env i) ''/'')) m = None)"
  shows "\<exists>s'. run cfg env n s = Some s'"
proof (induction n)
  case 0
  show ?case by simp
next
  case (Suc n)
  then obtain s1 where s1: "run cfg env n s = Some s1" by blast
  from assms have "open_fs (env n) ''/'' = None \<or> \<not> isDirectory (the (open_fs (env n) ''/'')) \<or>
           (\<exists>m. entries (the (open_fs (env n) ''/'')) m = None)" by blast
  from loop_returns [OF this, of cfg s1] s1 show ?case by simp
qed

lemma demo_listing_ends:
  "open_fs (env_demo i) ''/'' = None \<or> \<not> isDirectory (the (open_fs (env_demo i) ''/'')) \<or>
   (\<exists>m. entries (the (open_fs (env_demo i) ''/'')) m = None)"
  using demo_entries(5) by (auto simp: env_demo_def demo_entries(1))

lemma run_demo: "\<exists>s'. run cfg env_demo n s = Some s'"
  by (rule run_returns) (simp only: demo_listing_ends simp_thms)

subsection \<open>C1: when the loop mounts again\<close>

lemma run_demo_counts:
  "\<exists>s'. run cfg env_demo n (boot p) = Some s' \<and> toggles s' = n \<and> begins s' = (n + 5) div 12"
proof -
  have c: "count (boot p) = 5" and z: "toggles (boot p) = 0" "begins (boot p) = 0"
    by (simp_all add: boot_def)
  from run_demo [of cfg n "boot p"] obtain s' where s': "run cfg env_demo n (boot p) = Some s'"
    by blast
  from run_invariant [OF c s'] z s' show ?thesis by simp
qed

text \<open>
  Claim C1 as stated fails. From \<open>count = 5\<close>, with a file system that mounts and lists
  without fault: after the 6th call of \<open>toggleOutput\<close> the loop has not mounted; the first
  mount from the loop is made in the 7th call of \<open>loop\<close>, so after the 7th toggle; after
  18 calls there is still one mount, the second is made in the 19th call, 12 calls after
  the first.
\<close>

theorem remount_cadence_counterexample:
  "map_option toggles (run cfg_led env_demo 6 (boot False)) = Some 6 \<and>
   map_option begins (run cfg_led env_demo 6 (boot False)) = Some 0 \<and>
   map_option begins (run cfg_led env_demo 7 (boot False)) = Some 1 \<and>
   map_option begins (run cfg_led env_demo 18 (boot False)) = Some 1 \<and>
   map_option begins (run cfg_led env_demo 19 (boot False)) = Some 2"
proof -
  from run_demo_counts [of cfg_led 6 False]
  obtain s6 where "run cfg_led env_demo 6 (boot False) = Some s6" "toggles s6 = 6" "begins s6 = 0"
    by auto
  moreover from run_demo_counts [of cfg_led 7 False]
  obtain s7 where "run cfg_led env_demo 7 (boot False) = Some s7" "begins s7 = 1"
    by auto
  moreover from run_demo_counts [of cfg_led 18 False]
  obtain s18 where "run cfg_led env_demo 18 (boot False) = Some s18" "begins s18 = 1"
    by auto
  moreover from run_demo_counts [of cfg_led 19 False]
  obtain s19 where "run cfg_led env_demo 19 (boot False) = Some s19" "begins s19 = 2"
    by auto
  ultimately show ?thesis by simp
qed

lemma mod12_call: "((k + 5) mod 12 = 11) = ((k + 1) mod 12 = (7::nat))"
  by presburger

text \<open>
  Claim C1, amended. Start with \<open>count = 5\<close> and let \<open>k\<close> calls of \<open>loop\<close> have returned.
  The next call makes call number \<open>k + 1\<close> of \<open>toggleOutput\<close>; it mounts (once) exactly
  when \<open>(k + 1) mod 12 = 7\<close>, that is in the calls 7, 19, 31, \<dots>: the first mount comes
  with the 7th toggle and each later one 12 toggles after the one before.
\<close>

theorem remount_cadence:
  assumes "count s = 5" and "run cfg env k s = Some s1" and "loop cfg (env k) s1 = Some s2"
  shows "toggles s2 = toggles s + (k + 1) \<and>
         begins s2 = begins s1 + (if (k + 1) mod 12 = 7 then 1 else 0) \<and>
         begins s2 = begins s + (k + 6) div 12"
proof -
  from assms(2,3) have s2: "run cfg env (Suc k) s = Some s2" by simp
  note i1 = run_invariant [OF assms(1,2)] and i2 = run_invariant [OF assms(1) s2]
  have "begins s2 = begins s1 + (if (k + 1) mod 12 = 7 then 1 else 0)"
  proof (cases "10 < count s1")
    case True
    with i1 have "(k + 5) mod 12 = 11" by simp
    then have "(k + 1) mod 12 = 7" using mod12_call [of k] by blast
    with loop_step(2) [OF assms(3) True] show ?thesis by simp
  next
    case False
    with i1 have "(k + 5) mod 12 \<noteq> 11" by simp
    then have "(k + 1) mod 12 \<noteq> 7" using mod12_call [of k] by blast
    with loop_step(3) [OF assms(3) False] show ?thesis by simp
  qed
  with i2 show ?thesis by simp
qed

theorem remount_cadence_witness:
  "map_option toggles (run cfg_led env_demo 7 (boot False)) = Some 7 \<and>
   map_option begins (run cfg_led env_demo 7 (boot False)) = Some 1"
proof -
  have c: "count (boot False) = 5" and z: "toggles (boot False) = 0" "begins (boot False) = 0"
    by (simp_all add: boot_def)
  from run_demo [of cfg_led 6 "boot False"]
  obtain s1 where s1: "run cfg_led env_demo 6 (boot False) = Some s1" by blast
  from loop_returns [OF demo_listing_ends [of 6], of cfg_led s1]
  obtain s2 where l: "loop cfg_led (env_demo 6) s1 = Some s2" by blast
  from remount_cadence [OF c s1 l] z have "toggles s2 = 7 \<and> begins s2 = 1" by simp
  moreover have "run cfg_led env_demo (Suc 6) (boot False) = Some s2"
    by (simp only: run.simps s1 l option.case)
  ultimately show ?thesis by simp
qed

subsection \<open>C6: a mount that fails\<close>

lemma setup_fail:
  "\<not> begin_ok fs \<Longrightarrow>
   setup_f cfg fs s =
     Some ((initOutput cfg (print (''Program version: '' @ progVersion @ LF) (delay 200 s)))
        \<lparr>serial := serial (initOutput cfg (print (''Program version: '' @ progVersion @ LF) (delay 200 s))) @
                     LF @ LF @ ''Initializing LittleFS...'' @ CRLF @
                     ''Error: LittleFS initialization failed.'' @ CRLF,
          begins := Suc (begins s)\<rparr>)"
  by (simp add: setup_f_def initLittleFs_fail initOutput_def Let_def delay_def)

lemma initOutput_fields [simp]:
  "count (initOutput cfg s) = count s" "toggles (initOutput cfg s) = toggles s"
  "reads (initOutput cfg s) = reads s" "clock (initOutput cfg s) = clock s"
  "begins (initOutput cfg s) = begins s"
  by (simp_all add: initOutput_def Let_def)

text \<open>
  Claim C6. When \<open>LittleFS.begin\<close> fails, \<open>initLittleFs\<close> writes its first line and the
  line \<open>Error: LittleFS initialization failed.\<close> and returns: no usage report, no listing,
  no directory read. So does \<open>setup\<close>, whose report ends with these two lines. After
  that, with every later mount failing too, any number \<open>n\<close> of calls of \<open>loop\<close> return,
  \<open>toggleOutput\<close> has then been called \<open>n\<close> times, and the time slept is the same as with a
  working file system: 2500 ms per call and 2000 ms more in each call that tried to mount.
\<close>

theorem mount_failure_not_fatal:
  assumes "\<not> begin_ok fs" and "\<forall>i. \<not> begin_ok (env i)"
  shows "initLittleFs fs s =
           Some (s\<lparr>serial := serial s @ LF @ LF @ ''Initializing LittleFS...'' @ CRLF @
                               ''Error: LittleFS initialization failed.'' @ CRLF,
                    begins := Suc (begins s)\<rparr>) \<and>
         (\<exists>s0 s'. setup_f cfg fs (boot p) = Some s0 \<and>
            serial s0 =
              serial (initOutput cfg (print (''Program version: '' @ progVersion @ LF) (delay 200 (boot p)))) @
              LF @ LF @ ''Initializing LittleFS...'' @ CRLF @
              ''Error: LittleFS initialization failed.'' @ CRLF \<and>
            reads s0 = 0 \<and>
            run cfg env n s0 = Some s' \<and> toggles s' = n \<and> reads s' = 0 \<and>
            clock s' = 200 + 2500 * n + 2000 * ((n + 5) div 12))"
proof
  from assms(1) show "initLittleFs fs s =
           Some (s\<lparr>serial := serial s @ LF @ LF @ ''Initializing LittleFS...'' @ CRLF @
                               ''Error: LittleFS initialization failed.'' @ CRLF,
                    begins := Suc (begins s)\<rparr>)"
    by (rule initLittleFs_fail)
next
  let ?pre = "initOutput cfg (print (''Program version: '' @ progVersion @ LF) (delay 200 (boot p)))"
  let ?s0 = "?pre\<lparr>serial := serial ?pre @ LF @ LF @ ''Initializing LittleFS...'' @ CRLF @
                     ''Error: LittleFS initialization failed.'' @ CRLF,
                 begins := Suc (begins (boot p))\<rparr>"
  have s0: "setup_f cfg fs (boot p) = Some ?s0"
    using assms(1) by (rule setup_fail)
  have em: "serial ?s0 = serial ?pre @ LF @ LF @ ''Initializing LittleFS...'' @ CRLF @
              ''Error: LittleFS initialization failed.'' @ CRLF"
    by simp
  have f: "count ?s0 = 5" "reads ?s0 = 0" "toggles ?s0 = 0" "clock ?s0 = 200"
    by (simp_all add: boot_def delay_def)
  from run_fail [OF assms(2), of cfg n ?s0]
  obtain s' where s': "run cfg env n ?s0 = Some s'" and r: "reads s' = reads ?s0" by blast
  from run_invariant [OF f(1) s'] f r
  have "toggles s' = n \<and> reads s' = 0 \<and> clock s' = 200 + 2500 * n + 2000 * ((n + 5) div 12)"
    by simp
  with s0 em f(2) s'
  show "\<exists>s0 s'. setup_f cfg fs (boot p) = Some s0 \<and>
            serial s0 =
              serial (initOutput cfg (print (''Program version: '' @ progVersion @ LF) (delay 200 (boot p)))) @
              LF @ LF @ ''Initializing LittleFS...'' @ CRLF @
              ''Error: LittleFS initialization failed.'' @ CRLF \<and>
            reads s0 = 0 \<and>
            run cfg env n s0 = Some s' \<and> toggles s' = n \<and> reads s' = 0 \<and>
            clock s' = 200 + 2500 * n + 2000 * ((n + 5) div 12)"
    by blast
qed

theorem mount_failure_not_fatal_witness:
  "initLittleFs fs_fail (boot False) =
     Some ((boot False)\<lparr>serial := LF @ LF @ ''Initializing LittleFS...'' @ CRLF @
                                    ''Error: LittleFS initialization failed.'' @ CRLF,
                         begins := 1\<rparr>) \<and>
   (\<exists>s0 s'. setup_f cfg_led fs_fail (boot False) = Some s0 \<and>
      run cfg_led env_fail 19 s0 = Some s' \<and> toggles s' = 19 \<and> clock s' = 51700)"
proof -
  have 1: "\<not> begin_ok fs_fail" by (simp add: fs_fail_def)
  from mount_failure_not_fatal [OF 1 env_fail_all, of "boot False" cfg_led False 19]
  show ?thesis by (auto simp: boot_def)
qed

subsection \<open>C9: one pass over a finite directory\<close>

text \<open>
  Claim C9. When the root directory opens and its enumeration ends (some call of
  \<open>openNextFile\<close> returns nothing), \<open>listFiles\<close> returns. With \<open>n\<close> the number of entries
  before the first end, it has called \<open>openNextFile\<close> \<open>n + 1\<close> times in all (once per entry
  and once for the end, none on a subdirectory), and has written the blank line and then
  one line per entry of the root directory, in order.
\<close>

theorem single_pass:
  assumes "open_fs fs path = Some d" and "isDirectory d" and "entries d m = None"
  shows "\<exists>n s'. (\<forall>i<n. entries d i \<noteq> None) \<and> entries d n = None \<and>
           listFiles fs path s = Some s' \<and>
           reads s' = reads s + n + 1 \<and>
           emitted s s' = CRLF @ (if n = 0 then ''Info: No files found.'' @ CRLF else []) @
                          concat (map (\<lambda>i. entryLine (the (entries d i))) [0..<n])"
proof -
  from first_end [OF assms(3)]
  obtain n where n: "\<forall>i<n. entries d i \<noteq> None" "entries d n = None" by blast
  from listFiles_finite [OF assms(1,2) n, of s] n show ?thesis
    by (intro exI [of _ n]) (simp add: emitted_def)
qed

theorem single_pass_witness:
  "\<exists>s'. listFiles fs_demo ''/'' (boot False) = Some s' \<and> reads s' = 3 \<and>
         emitted (boot False) s' = CRLF @ entryLine data_bin @ entryLine logs"
proof -
  have e5: "entries demo_root 5 = None" by (simp add: demo_root_def)
  from single_pass [OF demo_entries(1,2) e5, of "boot False"]
  obtain n s' where n: "\<forall>i<n. entries demo_root i \<noteq> None" "entries demo_root n = None"
    and l: "listFiles fs_demo ''/'' (boot False) = Some s'" "reads s' = reads (boot False) + n + 1"
      "emitted (boot False) s' = CRLF @ (if n = 0 then ''Info: No files found.'' @ CRLF else []) @
         concat (map (\<lambda>i. entryLine (the (entries demo_root i))) [0..<n])"
    by blast
  from n(1) demo_entries(5) have "\<not> 2 < n" by blast
  moreover from n(2) demo_entries(3,4) have "n \<noteq> 0" "n \<noteq> Suc 0"
    by (metis option.distinct(1))+
  ultimately have "n = 2" by arith
  with l show ?thesis
    by (simp add: boot_def demo_entries upt_0_2)
qed

subsection \<open>Rounding to the nearest integer, ties to even\<close>

lemma round_even_cases:
  "round_even y = \<lfloor>y\<rfloor> \<and> y - of_int \<lfloor>y\<rfloor> \<le> 1 / 2 \<or>
   round_even y = \<lfloor>y\<rfloor> + 1 \<and> 1 / 2 \<le> y - of_int \<lfloor>y\<rfloor>"
  by (auto simp: round_even_def Let_def)

lemma round_even_error: "\<bar>of_int (round_even y) - y\<bar> \<le> 1 / 2"
proof -
  have "of_int \<lfloor>y\<rfloor> \<le> y" "y < of_int \<lfloor>y\<rfloor> + 1" by linarith+
  with round_even_cases [of y] show ?thesis by auto
qed

lemma round_even_of_int [simp]: "round_even (of_int k) = k"
  by (simp add: round_even_def)

lemma round_even_0 [simp]: "round_even 0 = 0"
  by (simp add: round_even_def)

lemma round_even_mono:
  assumes "x \<le> y"
  shows "round_even x \<le> round_even y"
proof (cases "\<lfloor>x\<rfloor> = \<lfloor>y\<rfloor>")
  case True
  with assms have "x - of_int \<lfloor>x\<rfloor> \<le> y - of_int \<lfloor>y\<rfloor>" by simp
  with True show ?thesis
    by (auto simp: round_even_def Let_def)
next
  case False
  with assms have "\<lfloor>x\<rfloor> + 1 \<le> \<lfloor>y\<rfloor>"
    using floor_mono [OF assms] by linarith
  moreover have "round_even x \<le> \<lfloor>x\<rfloor> + 1" "\<lfloor>y\<rfloor> \<le> round_even y"
    using round_even_cases [of x] round_even_cases [of y] by auto
  ultimately show ?thesis by linarith
qed

lemma round_even_ge: "of_int k \<le> y \<Longrightarrow> k \<le> round_even y"
  using round_even_mono [of "of_int k" y] by simp

lemma round_even_le: "y \<le> of_int k \<Longrightarrow> round_even y \<le> k"
  using round_even_mono [of y "of_int k"] by simp

subsection \<open>The exponent search\<close>

lemma float_exp_bounds: "- 126 \<le> float_exp n x \<and> float_exp n x \<le> int n - 126"
proof (induction n x rule: float_exp.induct)
  case (1 n x)
  show ?case
  proof (cases "n = 0")
    case True
    then show ?thesis by (simp add: float_exp.simps)
  next
    case False
    with 1 show ?thesis
      by (subst (1 2) float_exp.simps) auto
  qed
qed

lemma float_exp_le_arg:
  "float_exp n x = - 126 \<or> 2 powi (float_exp n x) \<le> x"
proof (induction n x rule: float_exp.induct)
  case (1 n x)
  show ?case
  proof (cases "n = 0")
    case True
    then show ?thesis by (simp add: float_exp.simps)
  next
    case False
    with 1 show ?thesis
      by (subst (1 2) float_exp.simps) auto
  qed
qed

lemma float_exp_gt_arg:
  "x < 2 powi (int n - 125) \<Longrightarrow> x < 2 powi (float_exp n x + 1)"
proof (induction n x rule: float_exp.induct)
  case (1 n x)
  show ?case
  proof (cases "n = 0")
    case True
    with 1(2) show ?thesis by (simp add: float_exp.simps)
  next
    case n: False
    show ?thesis
    proof (cases "2 powi (int n - 126) \<le> x")
      case True
      with n 1(2) show ?thesis
        by (subst float_exp.simps) (simp add: algebra_simps)
    next
      case False
      then have "x < 2 powi (int (n - 1) - 125)"
        using n by (simp add: of_nat_diff algebra_simps)
      from 1(1) [OF n False this] n False show ?thesis
        by (subst float_exp.simps) simp
    qed
  qed
qed

lemma float_exp_mono:
  "x \<le> y \<Longrightarrow> float_exp n x \<le> float_exp n y"
proof (induction n x arbitrary: y rule: float_exp.induct)
  case (1 n x)
  show ?case
  proof (cases "n = 0")
    case True
    then show ?thesis by (simp add: float_exp.simps)
  next
    case n: False
    show ?thesis
    proof (cases "2 powi (int n - 126) \<le> x")
      case True
      with 1(2) have "2 powi (int n - 126) \<le> y" by simp
      with True n show ?thesis
        by (subst (1 2) float_exp.simps) simp
    next
      case False
      have "float_exp (n - 1) x \<le> float_exp (n - 1) y"
        using n False 1(2) by (intro 1(1))
      also have "float_exp (n - 1) y \<le> float_exp n y"
        using n float_exp_bounds [of "n - 1" y]
        by (subst (2) float_exp.simps) (auto simp: of_nat_diff)
      finally show ?thesis
        using n False by (subst float_exp.simps) simp
    qed
  qed
qed

subsection \<open>Rounding to binary32\<close>

lemma float_round_nonneg_eq:
  "0 \<le> x \<Longrightarrow>
   float_round x = of_int (round_even (x / 2 powi (float_exp 253 x - 23))) * 2 powi (float_exp 253 x - 23)"
  by (simp add: float_round_def Let_def)

lemma float_round_0 [simp]: "float_round 0 = 0"
  by (simp add: float_round_def)

lemma float_round_nonneg:
  assumes "0 \<le> x"
  shows "0 \<le> float_round x"
proof -
  have "0 \<le> x / 2 powi (float_exp 253 x - 23)" using assms by simp
  then have "0 \<le> round_even (x / 2 powi (float_exp 253 x - 23))"
    using round_even_ge [of 0] by simp
  then show ?thesis
    by (simp add: float_round_nonneg_eq [OF assms])
qed

lemma float_exp_normal:
  assumes "2 powi (- 126) \<le> x" and "x < 2 powi 128"
  shows "2 powi (float_exp 253 x) \<le> x" and "x < 2 powi (float_exp 253 x + 1)"
proof -
  from float_exp_le_arg [of 253 x] assms(1) show "2 powi (float_exp 253 x) \<le> x"
    by auto
  from float_exp_gt_arg [of x 253] assms(2) show "x < 2 powi (float_exp 253 x + 1)"
    by simp
qed

lemma float_round_error:
  assumes "2 powi (- 126) \<le> x" and "x < 2 powi 128"
  shows "\<bar>float_round x - x\<bar> \<le> x / 2 ^ 24"
proof -
  define e where "e = float_exp 253 x"
  define ulp :: rat where "ulp = 2 powi (e - 23)"
  have pos: "0 < ulp" by (simp add: ulp_def)
  have x0: "0 \<le> x" using assms(1) by (rule order_trans [rotated]) simp
  have fl: "float_round x = of_int (round_even (x / ulp)) * ulp"
    by (simp add: float_round_nonneg_eq [OF x0] ulp_def e_def)
  have "float_round x - x = (of_int (round_even (x / ulp)) - x / ulp) * ulp"
    using pos by (simp add: fl left_diff_distrib)
  then have "\<bar>float_round x - x\<bar> = \<bar>of_int (round_even (x / ulp)) - x / ulp\<bar> * ulp"
    using pos by (simp only: abs_mult abs_of_pos)
  also have "\<dots> \<le> 1 / 2 * ulp"
    using pos round_even_error [of "x / ulp"] by (intro mult_right_mono) simp_all
  also have "1 / 2 * ulp = 2 powi e / 2 ^ 24"
    by (simp add: ulp_def power_int_diff)
  also have "\<dots> \<le> x / 2 ^ 24"
    using float_exp_normal(1) [OF assms] by (simp add: e_def divide_right_mono)
  finally show ?thesis .
qed

lemma float_round_binade:
  assumes "0 \<le> x" and "x < 2 powi 128"
  shows "float_round x \<le> 2 powi (float_exp 253 x + 1)"
    and "float_exp 253 x \<noteq> - 126 \<Longrightarrow> 2 powi (float_exp 253 x) \<le> float_round x"
proof -
  define e where "e = float_exp 253 x"
  define ulp :: rat where "ulp = 2 powi (e - 23)"
  have pos: "0 < ulp" by (simp add: ulp_def)
  have fl: "float_round x = of_int (round_even (x / ulp)) * ulp"
    by (simp add: float_round_nonneg_eq [OF assms(1)] ulp_def e_def)
  have up: "2 powi (e + 1) = of_int (2 ^ 24) * ulp"
    by (simp add: ulp_def power_int_diff power_int_add)
  have lo: "2 powi e = of_int (2 ^ 23) * ulp"
    by (simp add: ulp_def power_int_diff)
  from float_exp_gt_arg [of x 253] assms(2) have "x < 2 powi (e + 1)"
    by (simp add: e_def)
  then have "x / ulp \<le> of_int (2 ^ 24)"
    using pos by (simp add: up pos_divide_le_eq)
  then have "round_even (x / ulp) \<le> 2 ^ 24" by (rule round_even_le)
  then have "(of_int (round_even (x / ulp)) :: rat) \<le> of_int (2 ^ 24)"
    by (simp only: of_int_le_iff)
  then show "float_round x \<le> 2 powi (float_exp 253 x + 1)"
    unfolding fl e_def [symmetric] up using pos by (intro mult_right_mono) simp_all
  show "2 powi (float_exp 253 x) \<le> float_round x" if "float_exp 253 x \<noteq> - 126"
  proof -
    from float_exp_le_arg [of 253 x] that have "2 powi e \<le> x" by (simp add: e_def)
    then have "of_int (2 ^ 23) \<le> x / ulp"
      using pos by (simp add: lo pos_le_divide_eq)
    then have "2 ^ 23 \<le> round_even (x / ulp)" by (rule round_even_ge)
    then have "(of_int (2 ^ 23) :: rat) \<le> of_int (round_even (x / ulp))"
      by (simp only: of_int_le_iff)
    then show ?thesis
      unfolding fl e_def [symmetric] lo using pos by (intro mult_right_mono) simp_all
  qed
qed

lemma float_round_mono:
  assumes "0 \<le> x" and "x \<le> y" and "y < 2 powi 128"
  shows "float_round x \<le> float_round y"
proof (cases "float_exp 253 x = float_exp 253 y")
  case True
  have "x / 2 powi (float_exp 253 y - 23) \<le> y / 2 powi (float_exp 253 y - 23)"
    using assms(2) by (simp add: divide_right_mono)
  then have "round_even (x / 2 powi (float_exp 253 y - 23)) \<le> round_even (y / 2 powi (float_exp 253 y - 23))"
    by (rule round_even_mono)
  then have "(of_int (round_even (x / 2 powi (float_exp 253 y - 23))) :: rat) \<le>
             of_int (round_even (y / 2 powi (float_exp 253 y - 23)))"
    by (simp only: of_int_le_iff)
  then show ?thesis
    using assms(1,2) by (simp add: float_round_nonneg_eq True mult_right_mono)
next
  case False
  with float_exp_mono [OF assms(2), of 253] have lt: "float_exp 253 x < float_exp 253 y" by simp
  with float_exp_bounds [of 253 x] have ny: "float_exp 253 y \<noteq> - 126" by simp
  have y0: "0 \<le> y" using assms(1,2) by simp
  have x128: "x < 2 powi 128" using assms(2,3) by simp
  have "float_round x \<le> 2 powi (float_exp 253 x + 1)"
    using assms(1) x128 by (rule float_round_binade)
  also have "\<dots> \<le> 2 powi (float_exp 253 y)"
    using lt by (intro power_int_increasing) simp_all
  also have "\<dots> \<le> float_round y"
    using y0 assms(3) ny by (rule float_round_binade)
  finally show ?thesis .
qed

subsection \<open>Evaluating the float operations on numerals\<close>

lemma powi2_eval: "(2::rat) powi e = (if 0 \<le> e then 2 ^ nat e else 1 / 2 ^ nat (- e))"
  by (simp add: power_int_def field_simps)

lemma floor_numeral_div: "\<lfloor>numeral a / numeral b :: rat\<rfloor> = numeral a div numeral b"
  using floor_divide_of_int_eq [of "numeral a" "numeral b", where ?'a = rat] by simp

lemmas float_eval =
  float_round_def float_exp.simps round_even_def powi2_eval Let_def floor_numeral_div

lemma float_round_1 [simp]: "float_round 1 = 1"
  by (simp add: float_eval)

lemma float_round_2p32 [simp]: "float_round 4294967296 = 4294967296"
  by (simp add: float_eval)

lemma float_round_100ulp: "float_round (100 + 1 / 131072) = 100 + 1 / 131072"
  by (simp add: float_eval)

subsection \<open>The values of size_t as floats\<close>

lemma nat_float_range:
  fixes n :: nat
  assumes "n < 2 ^ 32"
  shows "(of_nat n :: rat) < 4294967296" and "(of_nat n :: rat) < 2 powi 128"
proof -
  from assms have "(of_nat n :: rat) < of_nat (2 ^ 32)" by (simp only: of_nat_less_iff)
  then show "(of_nat n :: rat) < 4294967296" by simp
  then show "(of_nat n :: rat) < 2 powi 128" by (simp add: powi2_eval)
qed

lemma nat_float_mono:
  fixes m n :: nat
  assumes "m \<le> n" and "n < 2 ^ 32"
  shows "float_round (of_nat m) \<le> float_round (of_nat n)"
  using assms(1) nat_float_range(2) [OF assms(2)]
  by (intro float_round_mono) simp_all

lemma nat_float_bounds:
  fixes n :: nat
  assumes "n < 2 ^ 32"
  shows "0 \<le> float_round (of_nat n)" and "float_round (of_nat n) \<le> 4294967296"
    and "0 < n \<Longrightarrow> 1 \<le> float_round (of_nat n)"
proof -
  show "0 \<le> float_round (of_nat n)" by (simp add: float_round_nonneg)
  have "float_round (of_nat n) \<le> float_round 4294967296"
    using nat_float_range(1) [OF assms] by (intro float_round_mono) (simp_all add: powi2_eval)
  then show "float_round (of_nat n) \<le> 4294967296" by simp
  show "1 \<le> float_round (of_nat n)" if "0 < n"
  proof -
    from that have "float_round (of_nat (Suc 0)) \<le> float_round (of_nat n)"
      using assms by (intro nat_float_mono) simp_all
    then show ?thesis by simp
  qed
qed

lemma size_t_lt: "unat (w :: 32 word) < 2 ^ 32"
  using unsigned_less [of w, where ?'a = nat] by simp

lemma to_float_bounds:
  shows "0 \<le> to_float w" and "to_float w \<le> 4294967296" and "0 < w \<Longrightarrow> 1 \<le> to_float w"
proof -
  show "0 \<le> to_float w" and "to_float w \<le> 4294967296"
    unfolding to_float_def by (rule nat_float_bounds [OF size_t_lt])+
  show "1 \<le> to_float w" if "0 < w"
  proof -
    from that have "0 < unat w" by (simp add: word_greater_zero_iff unat_gt_0)
    then show ?thesis
      unfolding to_float_def by (rule nat_float_bounds(3) [OF size_t_lt])
  qed
qed

lemma to_float_mono: "v \<le> w \<Longrightarrow> to_float v \<le> to_float w"
  unfolding to_float_def word_le_nat_alt by (rule nat_float_mono [OF _ size_t_lt])

text \<open>
  No operation of \<open>usedPercent\<close> overflows: the conversions, the product and the result
  stay below \<open>2\<^sup>3\<^sup>9\<close>, far from the largest binary32 number.
\<close>

lemma float_round_2p32x100: "float_round 429496729600 = 429496729600"
  by (simp add: float_eval)

lemma fmul_100_bounds:
  shows "0 \<le> fmul (to_float w) 100" and "fmul (to_float w) 100 \<le> 429496729600"
proof -
  have w: "0 \<le> to_float w" "to_float w \<le> 4294967296" by (rule to_float_bounds)+
  show "0 \<le> fmul (to_float w) 100"
    unfolding fmul_def using w by (intro float_round_nonneg) simp
  have "fmul (to_float w) 100 \<le> float_round 429496729600"
    unfolding fmul_def using w by (intro float_round_mono) (simp_all add: powi2_eval)
  then show "fmul (to_float w) 100 \<le> 429496729600"
    by (simp only: float_round_2p32x100)
qed

lemma usedPercent_no_overflow:
  "to_float w < 2 ^ 39 \<and> fmul (to_float w) 100 < 2 ^ 39 \<and> usedPercent fs < 2 ^ 39"
proof (intro conjI)
  show "to_float w < 2 ^ 39"
    using to_float_bounds(2) [of w] by simp
  show "fmul (to_float w) 100 < 2 ^ 39"
    using fmul_100_bounds(2) [of w] by simp
  show "usedPercent fs < 2 ^ 39"
  proof (cases "0 < totalBytes fs")
    case False
    then show ?thesis by (simp add: usedPercent_def)
  next
    case True
    let ?P = "fmul (to_float (usedBytes fs)) 100"
    let ?T = "to_float (totalBytes fs)"
    have T1: "1 \<le> ?T" using True by (rule to_float_bounds)
    note P = fmul_100_bounds [of "usedBytes fs"]
    have q0: "0 \<le> ?P / ?T" using P(1) T1 by simp
    have "?P / ?T \<le> ?P / 1" using P(1) T1 by (intro divide_left_mono) simp_all
    with P(2) have q: "?P / ?T \<le> 429496729600" by simp
    have "float_round (?P / ?T) \<le> float_round 429496729600"
      using q0 q by (intro float_round_mono) (simp_all add: powi2_eval)
    then have "float_round (?P / ?T) \<le> 429496729600"
      by (simp only: float_round_2p32x100)
    then show ?thesis
      using True by (simp add: usedPercent_def fdiv_def)
  qed
qed

subsection \<open>C8: the range of usedPercent\<close>

text \<open>
  Claim C8 as stated fails: on a full partition of 671091 bytes, \<open>usedBytes \<le> totalBytes\<close>
  holds and \<open>usedPercent\<close> is \<open>100 + 2\<^sup>-\<^sup>1\<^sup>7\<close>, the binary32 value next above 100.
  The product \<open>671091 * 100 = 67109100\<close> is a tie between two floats and rounds up to
  \<open>67109104\<close>; the quotient \<open>67109104 / 671091\<close> is nearer to \<open>100 + 2\<^sup>-\<^sup>1\<^sup>7\<close> than to 100.
\<close>

theorem used_percent_range_counterexample:
  "usedBytes fs_full \<le> totalBytes fs_full \<and>
   usedPercent fs_full = 100 + 1 / 2 ^ 17 \<and>
   \<not> usedPercent fs_full \<le> 100"
proof -
  have 1: "to_float 671091 = 671091"
    by (simp add: to_float_def float_eval)
  have 2: "fmul 671091 100 = 67109104"
    by (simp add: fmul_def float_eval)
  have 3: "fdiv 67109104 671091 = 100 + 1 / 2 ^ 17"
    by (simp add: fdiv_def float_eval)
  have "usedPercent fs_full = 100 + 1 / 2 ^ 17"
    by (simp add: usedPercent_def fs_full_def 1 2 3 del: power_numeral)
  then show ?thesis
    by (simp add: fs_full_def)
qed

text \<open>
  Claim C8, amended. When \<open>usedBytes \<le> totalBytes\<close>, also when \<open>totalBytes = 0\<close>, the value
  of \<open>usedPercent\<close> lies between 0 and \<open>100 + 2\<^sup>-\<^sup>1\<^sup>7\<close>: it exceeds 100 by at most one
  unit in the last place of a binary32 number.
\<close>

theorem used_percent_range:
  assumes "usedBytes fs \<le> totalBytes fs"
  shows "0 \<le> usedPercent fs \<and> usedPercent fs \<le> 100 + 1 / 2 ^ 17"
proof -
  have "0 \<le> usedPercent fs \<and> usedPercent fs \<le> 100 + 1 / 131072"
  proof (cases "0 < totalBytes fs")
    case False
    then show ?thesis by (simp add: usedPercent_def)
  next
    case True
    define U where "U = to_float (usedBytes fs)"
    define T where "T = to_float (totalBytes fs)"
    define P where "P = fmul U 100"
    have up: "usedPercent fs = float_round (P / T)"
      using True by (simp add: usedPercent_def U_def T_def P_def fdiv_def)
    have U0: "0 \<le> U" and UT: "U \<le> T" and T1: "1 \<le> T" and T32: "T \<le> 4294967296"
      unfolding U_def T_def
      by (rule to_float_bounds, rule to_float_mono [OF assms], rule to_float_bounds(3) [OF True],
          rule to_float_bounds)
    have P0: "0 \<le> P"
      using U0 by (simp add: P_def fmul_def float_round_nonneg)
    have "P \<le> float_round (T * 100)"
      unfolding P_def fmul_def using U0 UT T32
      by (intro float_round_mono) (simp_all add: powi2_eval)
    moreover have "\<bar>float_round (T * 100) - T * 100\<bar> \<le> T * 100 / 2 ^ 24"
      using T1 T32 by (intro float_round_error) (simp_all add: powi2_eval)
    ultimately have "P \<le> T * 100 + T * 100 / 2 ^ 24" by linarith
    also have "\<dots> = T * (100 + 100 / 2 ^ 24)" by (simp add: algebra_simps)
    finally have "P / T \<le> 100 + 100 / 2 ^ 24"
      using T1 by (simp add: pos_divide_le_eq mult.commute)
    also have "(100 + 100 / 2 ^ 24 :: rat) \<le> 100 + 1 / 131072" by simp
    finally have q: "P / T \<le> 100 + 1 / 131072" .
    have q0: "0 \<le> P / T" using P0 T1 by simp
    have "float_round (P / T) \<le> float_round (100 + 1 / 131072)"
      using q0 q by (intro float_round_mono) (simp_all add: powi2_eval)
    then have "float_round (P / T) \<le> 100 + 1 / 131072"
      by (simp only: float_round_100ulp)
    moreover have "0 \<le> float_round (P / T)"
      using q0 by (rule float_round_nonneg)
    ultimately show ?thesis
      unfolding up by blast
  qed
  then show ?thesis by simp
qed

theorem used_percent_range_witness:
  "usedBytes fs_demo \<le> totalBytes fs_demo \<and>
   0 \<le> usedPercent fs_demo \<and> usedPercent fs_demo \<le> 100 + 1 / 2 ^ 17"
proof -
  have "usedBytes fs_demo \<le> totalBytes fs_demo" by (simp add: fs_demo_def)
  with used_percent_range [of fs_demo] show ?thesis by blast
qed

subsection \<open>C2: the value of usedPercent\<close>

lemma approx_refl: "approx 0 a a"
  by (simp add: approx_def)

lemma approx_scale:
  assumes "0 \<le> c" and "approx k a b"
  shows "approx k (a * c) (b * c)"
proof -
  from assms(2) have "b * (1 - 1 / 2 ^ 24) ^ k \<le> a" "a \<le> b * (1 + 1 / 2 ^ 24) ^ k"
    by (simp_all only: approx_def)
  then have "b * (1 - 1 / 2 ^ 24) ^ k * c \<le> a * c" "a * c \<le> b * (1 + 1 / 2 ^ 24) ^ k * c"
    using assms(1) by (simp_all only: mult_right_mono)
  then show ?thesis
    by (simp only: approx_def mult.assoc mult.commute [of c])
qed

lemma approx_round:
  assumes "approx k a b" and "2 powi (- 126) \<le> a" and "a < 2 powi 128"
  shows "approx (Suc k) (float_round a) b"
proof -
  note e = float_round_error [OF assms(2,3)]
  have lo: "a * (1 - 1 / 2 ^ 24) \<le> float_round a"
    using abs_le_D2 [OF e] by (simp add: field_simps)
  have hi: "float_round a \<le> a * (1 + 1 / 2 ^ 24)"
    using abs_le_D1 [OF e] by (simp add: field_simps)
  from assms(1) have "b * (1 - 1 / 2 ^ 24) ^ k * (1 - 1 / 2 ^ 24) \<le> a * (1 - 1 / 2 ^ 24)"
    unfolding approx_def by (intro mult_right_mono) simp_all
  with lo have 1: "b * (1 - 1 / 2 ^ 24) ^ Suc k \<le> float_round a"
    by (simp only: power_Suc2 mult.assoc)
  from assms(1) have "a * (1 + 1 / 2 ^ 24) \<le> b * (1 + 1 / 2 ^ 24) ^ k * (1 + 1 / 2 ^ 24)"
    unfolding approx_def by (intro mult_right_mono) simp_all
  with hi have 2: "float_round a \<le> b * (1 + 1 / 2 ^ 24) ^ Suc k"
    by (simp only: power_Suc2 mult.assoc)
  from 1 2 show ?thesis unfolding approx_def by blast
qed

lemma approx_div:
  assumes "approx k a b" and "approx (Suc 0) c d" and "0 \<le> b" and "0 < d"
  shows "approx (k + 2) (a / c) (b / d)"
proof -
  define lo :: rat where "lo = 1 - 1 / 2 ^ 24"
  define hi :: rat where "hi = 1 + 1 / 2 ^ 24"
  have lo: "0 < lo" "lo * hi\<^sup>2 \<ge> 1" and hi: "0 < hi" "hi * lo\<^sup>2 \<le> 1"
    by (simp_all add: lo_def hi_def power2_eq_square)
  from assms(1) have a: "b * lo ^ k \<le> a" "a \<le> b * hi ^ k"
    by (simp_all add: approx_def lo_def hi_def)
  from assms(2) have c: "d * lo \<le> c" "c \<le> d * hi"
    by (simp_all add: approx_def lo_def hi_def)
  have dlo: "0 < d * lo" and dhi: "0 < d * hi" using assms(4) lo(1) hi(1) by simp_all
  have c0: "0 < c" using dlo c(1) by linarith
  have a0: "0 \<le> a" using a(1) assms(3) lo(1) by (meson mult_nonneg_nonneg order_trans zero_le_power less_imp_le)
  have bh: "0 \<le> b * hi ^ k" using assms(3) hi(1) by simp
  have bl: "0 \<le> b * lo ^ k" using assms(3) lo(1) by simp
  have "a / c \<le> b * hi ^ k / (d * lo)"
    using a(2) c(1) dlo bh by (intro frac_le) simp_all
  also have "\<dots> = b / d * hi ^ k * (1 / lo)"
    by simp
  also have "\<dots> \<le> b / d * hi ^ k * hi\<^sup>2"
  proof (intro mult_left_mono)
    show "1 / lo \<le> hi\<^sup>2" using lo by (simp add: pos_divide_le_eq mult.commute)
    show "0 \<le> b / d * hi ^ k" using assms(3,4) hi(1) by simp
  qed
  also have "\<dots> = b / d * hi ^ (k + 2)"
    by (simp add: power_add power2_eq_square)
  finally have up: "a / c \<le> b / d * hi ^ (k + 2)" .
  have "b / d * lo ^ (k + 2) = b / d * lo ^ k * lo\<^sup>2"
    by (simp add: power_add power2_eq_square)
  also have "\<dots> \<le> b / d * lo ^ k * (1 / hi)"
  proof (intro mult_left_mono)
    show "lo\<^sup>2 \<le> 1 / hi" using hi by (simp add: pos_le_divide_eq mult.commute)
    show "0 \<le> b / d * lo ^ k" using assms(3,4) lo(1) by simp
  qed
  also have "\<dots> = b * lo ^ k / (d * hi)"
    by simp
  also have "\<dots> \<le> a / c"
    using a(1) c(2) c0 bl by (intro frac_le) simp_all
  finally have down: "b / d * lo ^ (k + 2) \<le> a / c" .
  from up down show ?thesis
    by (simp add: approx_def lo_def hi_def)
qed

lemma approx_coarse:
  assumes "approx k a b" and "k \<le> 5" and "0 \<le> b"
  shows "b / 2 \<le> a" and "a \<le> b * 2"
proof -
  have "(1 / 2 :: rat) \<le> (1 - 1 / 2 ^ 24) ^ 5" by (simp add: power_divide)
  also have "\<dots> \<le> (1 - 1 / 2 ^ 24) ^ k"
    using assms(2) by (intro power_decreasing) simp_all
  finally have "b * (1 / 2) \<le> b * (1 - 1 / 2 ^ 24) ^ k"
    using assms(3) by (intro mult_left_mono)
  with assms(1) show "b / 2 \<le> a" by (simp add: approx_def)
  have "(1 + 1 / 2 ^ 24 :: rat) ^ k \<le> (1 + 1 / 2 ^ 24) ^ 5"
    using assms(2) by (intro power_increasing) simp_all
  also have "\<dots> \<le> 2" by (simp add: power_divide)
  finally have "b * (1 + 1 / 2 ^ 24) ^ k \<le> b * 2"
    using assms(3) by (intro mult_left_mono)
  with assms(1) show "a \<le> b * 2" by (simp add: approx_def)
qed

lemma approx_5:
  assumes "approx 5 a b" and "0 \<le> b"
  shows "\<bar>a - b\<bar> \<le> b / 2 ^ 21"
proof -
  have "(1 + 1 / 2 ^ 24 :: rat) ^ 5 \<le> 1 + 1 / 2 ^ 21" by (simp add: power_divide)
  then have "b * (1 + 1 / 2 ^ 24) ^ 5 \<le> b * (1 + 1 / 2 ^ 21)"
    using assms(2) by (intro mult_left_mono)
  moreover have "(1 - 1 / 2 ^ 21 :: rat) \<le> (1 - 1 / 2 ^ 24) ^ 5" by (simp add: power_divide)
  then have "b * (1 - 1 / 2 ^ 21) \<le> b * (1 - 1 / 2 ^ 24) ^ 5"
    using assms(2) by (intro mult_left_mono)
  ultimately have "b * (1 - 1 / 2 ^ 21) \<le> a" "a \<le> b * (1 + 1 / 2 ^ 21)"
    using assms(1) by (simp_all add: approx_def)
  then have "a - b \<le> b / 2 ^ 21" "- (a - b) \<le> b / 2 ^ 21"
    by (simp_all add: field_simps)
  then show ?thesis by (rule abs_leI)
qed

lemma approx_round_range:
  assumes "approx k a b" and "k \<le> 4" and "1 / 2 ^ 64 \<le> b" and "b \<le> 2 ^ 64"
  shows "approx (Suc k) (float_round a) b"
proof -
  have b0: "0 \<le> b" using assms(3) by (rule order_trans [rotated]) simp
  from assms(2) have k5: "k \<le> 5" by simp
  note c = approx_coarse [OF assms(1) k5 b0]
  have "(2::rat) powi (- 126) \<le> 1 / 2 ^ 64 / 2" by (simp add: powi2_eval)
  also have "\<dots> \<le> b / 2" using assms(3) by simp
  also note c(1)
  finally have lo: "2 powi (- 126) \<le> a" .
  note c(2)
  also have "b * 2 \<le> 2 ^ 64 * 2" using assms(4) by simp
  also have "\<dots> < (2::rat) powi 128" by (simp add: powi2_eval)
  finally have hi: "a < 2 powi 128" .
  from assms(1) lo hi show ?thesis by (rule approx_round)
qed

lemma usedPercent_error:
  assumes "0 < totalBytes fs"
  shows "\<bar>usedPercent fs - of_nat (unat (usedBytes fs)) * 100 / of_nat (unat (totalBytes fs))\<bar>
         \<le> of_nat (unat (usedBytes fs)) * 100 / of_nat (unat (totalBytes fs)) / 2 ^ 21"
proof -
  define u :: rat where "u = of_nat (unat (usedBytes fs))"
  define t :: rat where "t = of_nat (unat (totalBytes fs))"
  have up: "usedPercent fs = float_round (float_round (float_round u * 100) / float_round t)"
    using assms by (simp only: usedPercent_def fdiv_def fmul_def to_float_def u_def t_def if_True)
  have u32: "u < 4294967296" and t32: "t < 4294967296"
    unfolding u_def t_def by (rule nat_float_range(1) [OF size_t_lt])+
  from assms have "Suc 0 \<le> unat (totalBytes fs)"
    by (simp add: word_greater_zero_iff unat_gt_0 Suc_le_eq)
  then have "(of_nat (Suc 0) :: rat) \<le> of_nat (unat (totalBytes fs))"
    by (simp only: of_nat_le_iff)
  then have t1: "1 \<le> t" by (simp add: t_def)
  have T: "approx (Suc 0) (float_round t) t"
    using t1 t32 by (intro approx_round_range approx_refl) simp_all
  show ?thesis
  proof (cases "unat (usedBytes fs) = 0")
    case True
    then have "u = 0" by (simp only: u_def of_nat_0)
    then show ?thesis
      unfolding u_def [symmetric] t_def [symmetric] up by simp
  next
    case False
    then have "Suc 0 \<le> unat (usedBytes fs)" by simp
    then have "(of_nat (Suc 0) :: rat) \<le> of_nat (unat (usedBytes fs))"
      by (simp only: of_nat_le_iff)
    then have u1: "1 \<le> u" by (simp add: u_def)
    have "approx (Suc 0) (float_round u) u"
      using u1 u32 by (intro approx_round_range approx_refl) simp_all
    then have U100: "approx (Suc 0) (float_round u * 100) (u * 100)"
      by (intro approx_scale) simp_all
    have P: "approx (Suc (Suc 0)) (float_round (float_round u * 100)) (u * 100)"
      using U100
    proof (rule approx_round_range)
      show "Suc 0 \<le> 4" by simp
      show "1 / 2 ^ 64 \<le> u * 100" using u1 by simp
      show "u * 100 \<le> 2 ^ 64" using u32 by simp
    qed
    have q0: "0 \<le> u * 100" and t0: "0 < t" using u1 t1 by simp_all
    have "u * 100 / t \<le> 4294967296 * 100 / 1"
      using u1 u32 t1 by (intro frac_le) simp_all
    then have qhi: "u * 100 / t \<le> 2 ^ 64" by simp
    have "1 * 100 / 4294967296 \<le> u * 100 / t"
      using u1 t32 t1 by (intro frac_le) simp_all
    then have qlo: "1 / 2 ^ 64 \<le> u * 100 / t" by simp
    have "approx (Suc (Suc 0) + 2) (float_round (float_round u * 100) / float_round t) (u * 100 / t)"
      using P T q0 t0 by (rule approx_div)
    moreover have "Suc (Suc 0) + 2 = 4" by simp
    ultimately have "approx 4 (float_round (float_round u * 100) / float_round t) (u * 100 / t)"
      by (simp only:)
    then have "approx (Suc 4) (usedPercent fs) (u * 100 / t)"
      unfolding up using _ qlo qhi by (rule approx_round_range) simp_all
    then have "approx 5 (usedPercent fs) (u * 100 / t)" by simp
    moreover have "0 \<le> u * 100 / t" using u1 t1 by simp
    ultimately show ?thesis
      unfolding u_def [symmetric] t_def [symmetric] by (rule approx_5)
  qed
qed

text \<open>
  Claim C2. With \<open>totalBytes = 0\<close> the value of \<open>usedPercent\<close> is 0. With
  \<open>totalBytes > 0\<close> it is \<open>usedBytes * 100 / totalBytes\<close> up to the rounding of the four
  float operations (two conversions, the product, the quotient): the relative error is at
  most \<open>2\<^sup>-\<^sup>2\<^sup>1\<close>. For \<open>totalBytes = 1000000\<close> and \<open>usedBytes = 250000\<close> every
  operation is exact, the value is 25 and the report shows \<open>25.00\<close>.
\<close>

theorem used_percent_value:
  "(totalBytes fs = 0 \<longrightarrow> usedPercent fs = 0) \<and>
   (0 < totalBytes fs \<longrightarrow>
      \<bar>usedPercent fs - of_nat (unat (usedBytes fs)) * 100 / of_nat (unat (totalBytes fs))\<bar>
        \<le> of_nat (unat (usedBytes fs)) * 100 / of_nat (unat (totalBytes fs)) / 2 ^ 21) \<and>
   (totalBytes fs = 1000000 \<and> usedBytes fs = 250000 \<longrightarrow>
      usedPercent fs = 25 \<and> show_f2 (usedPercent fs) = ''25.00'' \<and>
      printLittleFsUsage fs s =
        print (CRLF @ ''LittleFS total bytes: 1000000'' @ LF @
               ''LittleFS used bytes : 250000'' @ LF @
               ''LittleFS usage      : 25.00%'' @ LF) s)"
proof (intro conjI impI)
  assume "totalBytes fs = 0"
  then show "usedPercent fs = 0" by (simp add: usedPercent_def)
next
  assume "0 < totalBytes fs"
  then show "\<bar>usedPercent fs - of_nat (unat (usedBytes fs)) * 100 / of_nat (unat (totalBytes fs))\<bar>
        \<le> of_nat (unat (usedBytes fs)) * 100 / of_nat (unat (totalBytes fs)) / 2 ^ 21"
    by (rule usedPercent_error)
next
  assume a: "totalBytes fs = 1000000 \<and> usedBytes fs = 250000"
  have 1: "to_float 250000 = 250000" "to_float 1000000 = 1000000"
    by (simp_all add: to_float_def float_eval)
  have 2: "fmul 250000 100 = 25000000"
    by (simp add: fmul_def float_eval)
  have 3: "fdiv 25000000 1000000 = 25"
    by (simp add: fdiv_def float_eval)
  from a show v: "usedPercent fs = 25"
    by (simp add: usedPercent_def 1 2 3)
  show f: "show_f2 (usedPercent fs) = ''25.00''"
    by (simp add: v show_f2_def round_even_def show_nat.simps digit_def)
  have n: "show_nat 1000000 = ''1000000''" "show_nat 250000 = ''250000''"
    by (simp_all add: show_nat.simps digit_def)
  from a show "printLittleFsUsage fs s =
        print (CRLF @ ''LittleFS total bytes: 1000000'' @ LF @
               ''LittleFS used bytes : 250000'' @ LF @
               ''LittleFS usage      : 25.00%'' @ LF) s"
    by (simp add: printLittleFsUsage_def Let_def f n println_def print_def)
qed

theorem used_percent_value_witness:
  "usedPercent fs_fail = 0 \<and>
   \<bar>usedPercent fs_demo - 25\<bar> \<le> 25 / 2 ^ 21 \<and>
   usedPercent fs_demo = 25 \<and> show_f2 (usedPercent fs_demo) = ''25.00''"
proof -
  have 0: "totalBytes fs_fail = 0" by (simp add: fs_fail_def)
  have 1: "0 < totalBytes fs_demo" "totalBytes fs_demo = 1000000 \<and> usedBytes fs_demo = 250000"
    by (simp_all add: fs_demo_def)
  have 2: "(of_nat (unat (usedBytes fs_demo)) :: rat) * 100 / of_nat (unat (totalBytes fs_demo)) = 25"
    by (simp add: fs_demo_def)
  from used_percent_value [of fs_fail "boot False"] 0 have "usedPercent fs_fail = 0" by blast
  moreover from used_percent_value [of fs_demo "boot False"] 1(1)
  have "\<bar>usedPercent fs_demo - 25\<bar> \<le> 25 / 2 ^ 21"
    unfolding 2 by blast
  moreover from used_percent_value [of fs_demo "boot False"] 1(2)
  have "usedPercent fs_demo = 25 \<and> show_f2 (usedPercent fs_demo) = ''25.00''" by blast
  ultimately show ?thesis by blast
qed

end
